theory Spec2Isabelle
  imports Complex_Main "HOL-Library.Finite_Map"
begin

section \<open>Spatial grid (grid.py)\<close>

text \<open>
  Cells are pairs of Python integers, entities are Python integers. The dataclass
  \<^verbatim>\<open>Grid\<close> becomes a record; the prerendered surfaces are rendering state and are
  left out. The dictionary \<^verbatim>\<open>occupants\<close> is a partial map, the two fog sets are sets.
  The terrain matrices are lists of rows, read as \<^verbatim>\<open>walkable[y][x]\<close>; every read in
  the source is guarded by \<^verbatim>\<open>in_bounds\<close>, so on a grid whose matrices have \<open>h\<close> rows of
  \<open>w\<close> entries (\<open>wf_grid\<close>, which \<^verbatim>\<open>__post_init__\<close> establishes) no read is out of range.
\<close>

type_synonym cell = "int \<times> int"
type_synonym entity = int

record grid =
  w :: int
  h :: int
  walkable :: "bool list list"
  opaque :: "bool list list"
  occupants :: "cell \<rightharpoonup> entity"
  visible :: "cell set"
  explored :: "cell set"

definition wf_grid :: "grid \<Rightarrow> bool" where
  "wf_grid g \<longleftrightarrow>
     int (length (walkable g)) = max 0 (h g) \<and> list_all (\<lambda>row. int (length row) = max 0 (w g)) (walkable g) \<and>
     int (length (opaque g)) = max 0 (h g) \<and> list_all (\<lambda>row. int (length row) = max 0 (w g)) (opaque g)"

definition in_bounds :: "grid \<Rightarrow> int \<Rightarrow> int \<Rightarrow> bool" where
  "in_bounds g x y \<longleftrightarrow> 0 \<le> x \<and> x < w g \<and> 0 \<le> y \<and> y < h g"

definition walkable_at :: "grid \<Rightarrow> int \<Rightarrow> int \<Rightarrow> bool" where
  "walkable_at g x y = walkable g ! nat y ! nat x"

definition opaque_at :: "grid \<Rightarrow> int \<Rightarrow> int \<Rightarrow> bool" where
  "opaque_at g x y = opaque g ! nat y ! nat x"

definition is_walkable :: "grid \<Rightarrow> int \<Rightarrow> int \<Rightarrow> bool" where
  "is_walkable g x y \<longleftrightarrow> in_bounds g x y \<and> walkable_at g x y \<and> (x, y) \<notin> dom (occupants g)"

definition is_blocked :: "grid \<Rightarrow> int \<Rightarrow> int \<Rightarrow> bool" where
  "is_blocked g x y \<longleftrightarrow> \<not> in_bounds g x y \<or> \<not> walkable_at g x y"

definition is_opaque :: "grid \<Rightarrow> int \<Rightarrow> int \<Rightarrow> bool" where
  "is_opaque g x y \<longleftrightarrow> \<not> in_bounds g x y \<or> opaque_at g x y"

definition neighbors4 :: "grid \<Rightarrow> int \<Rightarrow> int \<Rightarrow> cell list" where
  "neighbors4 g x y =
     (if x > 0 then [(x - 1, y)] else []) @
     (if x < w g - 1 then [(x + 1, y)] else []) @
     (if y > 0 then [(x, y - 1)] else []) @
     (if y < h g - 1 then [(x, y + 1)] else [])"

subsection \<open>Occupancy\<close>

text \<open>\<^verbatim>\<open>occupy\<close> returns its boolean together with the grid it leaves behind.\<close>

definition occupy :: "grid \<Rightarrow> int \<Rightarrow> int \<Rightarrow> entity \<Rightarrow> bool \<times> grid" where
  "occupy g x y e =
     (let key = (x, y) in
      if key \<in> dom (occupants g) \<and> occupants g key \<noteq> Some e then (False, g)
      else (True, g\<lparr>occupants := (occupants g)(key \<mapsto> e)\<rparr>))"

definition vacate :: "grid \<Rightarrow> int \<Rightarrow> int \<Rightarrow> entity \<Rightarrow> grid" where
  "vacate g x y e =
     (if occupants g (x, y) = Some e then g\<lparr>occupants := (occupants g)((x, y) := None)\<rparr> else g)"

text \<open>The grid of the occupancy scenario: 3 by 3, open, nobody on it.\<close>

definition open_grid :: "int \<Rightarrow> int \<Rightarrow> grid" where
  "open_grid cols rows =
     \<lparr>w = cols, h = rows,
      walkable = replicate (nat rows) (replicate (nat cols) True),
      opaque = replicate (nat rows) (replicate (nat cols) False),
      occupants = Map.empty, visible = {}, explored = {}\<rparr>"

section \<open>Occupancy exclusivity\<close>

text \<open>
  Claim C2. \<^verbatim>\<open>occupy(cell, entity)\<close> succeeds exactly when the cell is unclaimed or
  already claimed by the same entity, and then the cell is recorded for the entity; when
  the cell is held by a different entity it returns false and the grid is unchanged.
  The mapping is a function of the cell, so a cell never has two occupants; what the
  operation adds to that is that every claim of another entity, on any cell, is still
  there afterwards.
\<close>

theorem occupy_exclusive:
  "(fst (occupy g x y e) \<longleftrightarrow> occupants g (x, y) = None \<or> occupants g (x, y) = Some e) \<and>
   (fst (occupy g x y e) \<longrightarrow> occupants (snd (occupy g x y e)) = (occupants g)((x, y) \<mapsto> e)) \<and>
   (\<forall>e'. occupants g (x, y) = Some e' \<and> e' \<noteq> e \<longrightarrow> occupy g x y e = (False, g)) \<and>
   (\<forall>c e'. e' \<noteq> e \<and> occupants g c = Some e' \<longrightarrow> occupants (snd (occupy g x y e)) c = Some e')"
  by (auto simp: occupy_def Let_def dom_def)

theorem occupy_exclusive_witness:
  "fst (occupy (open_grid 3 3) 1 1 5) \<and>
   occupants (snd (occupy (open_grid 3 3) 1 1 5)) (1, 1) = Some 5 \<and>
   occupy (snd (occupy (open_grid 3 3) 1 1 5)) 1 1 6 = (False, snd (occupy (open_grid 3 3) 1 1 5)) \<and>
   fst (occupy (vacate (snd (occupy (open_grid 3 3) 1 1 5)) 1 1 5) 1 1 6)"
proof -
  let ?g1 = "snd (occupy (open_grid 3 3) 1 1 5)"
  have free: "occupants (open_grid 3 3) (1, 1) = None"
    by (simp add: open_grid_def)
  have a: "fst (occupy (open_grid 3 3) 1 1 5)"
    using occupy_exclusive [of "open_grid 3 3" 1 1 5] free by blast
  have b: "occupants ?g1 (1, 1) = Some 5"
    using occupy_exclusive [of "open_grid 3 3" 1 1 5] a by simp
  have c: "occupy ?g1 1 1 6 = (False, ?g1)"
    using occupy_exclusive [of ?g1 1 1 6] b by simp
  have "occupants (vacate ?g1 1 1 5) (1, 1) = None"
    using b by (simp add: vacate_def)
  then have d: "fst (occupy (vacate ?g1 1 1 5) 1 1 6)"
    using occupy_exclusive [of "vacate ?g1 1 1 5" 1 1 6] by blast
  from a b c d show ?thesis by blast
qed

section \<open>Line of sight and fog of war (grid.py)\<close>

text \<open>
  \<^verbatim>\<open>bresenham\<close> is a generator around \<^verbatim>\<open>while True\<close>. The loop is a partial
  function that returns the cells it yields, in order; not returning is \<open>None\<close>.
\<close>

partial_function (option) bresenham_loop ::
  "int \<Rightarrow> int \<Rightarrow> int \<Rightarrow> int \<Rightarrow> int \<Rightarrow> int \<Rightarrow> int \<Rightarrow> int \<Rightarrow> int \<Rightarrow> cell list option" where
  "bresenham_loop x1 y1 dx dy sx sy x y err =
     (if x = x1 \<and> y = y1 then Some [(x, y)]
      else
        let e2 = 2 * err;
            err' = (if e2 \<ge> dy then err + dy else err);
            x' = (if e2 \<ge> dy then x + sx else x);
            err'' = (if e2 \<le> dx then err' + dx else err');
            y' = (if e2 \<le> dx then y + sy else y)
        in Option.bind (bresenham_loop x1 y1 dx dy sx sy x' y' err'') (\<lambda>rest. Some ((x, y) # rest)))"

declare bresenham_loop.simps [code]

definition bresenham :: "int \<Rightarrow> int \<Rightarrow> int \<Rightarrow> int \<Rightarrow> cell list option" where
  "bresenham x0 y0 x1 y1 =
     (let dx = \<bar>x1 - x0\<bar>;
          dy = - \<bar>y1 - y0\<bar>;
          sx = (if x0 < x1 then 1 else - 1);
          sy = (if y0 < y1 then 1 else - 1);
          err = dx + dy
      in bresenham_loop x1 y1 dx dy sx sy x0 y0 err)"

text \<open>\<^verbatim>\<open>has_los\<close> walks the yielded cells; the two endpoints are skipped.\<close>

primrec los_scan :: "grid \<Rightarrow> cell \<Rightarrow> cell \<Rightarrow> cell list \<Rightarrow> bool" where
  "los_scan g a b [] = True"
| "los_scan g a b (c # cs) =
     (if c = a \<or> c = b then los_scan g a b cs
      else if is_opaque g (fst c) (snd c) then False
      else los_scan g a b cs)"

definition has_los :: "grid \<Rightarrow> int \<Rightarrow> int \<Rightarrow> int \<Rightarrow> int \<Rightarrow> bool option" where
  "has_los g x0 y0 x1 y1 = map_option (los_scan g (x0, y0) (x1, y1)) (bresenham x0 y0 x1 y1)"

text \<open>Python's \<^verbatim>\<open>range(a, b)\<close> over integers.\<close>

definition py_range :: "int \<Rightarrow> int \<Rightarrow> int list" where
  "py_range a b = [a..b - 1]"

text \<open>
  \<^verbatim>\<open>reveal_from\<close>: the inner loop over \<open>x\<close> is \<open>reveal_row\<close>, the outer loop over \<open>y\<close>
  is \<open>reveal_rows\<close>. The line-of-sight test is only made for a cell within the radius,
  as the short-circuit \<^verbatim>\<open>and\<close> of the source does.
\<close>

primrec reveal_row :: "grid \<Rightarrow> int \<Rightarrow> int \<Rightarrow> int \<Rightarrow> int \<Rightarrow> int list \<Rightarrow> grid option" where
  "reveal_row g x0 y0 r2 y [] = Some g"
| "reveal_row g x0 y0 r2 y (x # xs) =
     (let dx = x - x0; dy = y - y0 in
      if dx * dx + dy * dy \<le> r2 then
        (case has_los g x0 y0 x y of
           None \<Rightarrow> None
         | Some los \<Rightarrow>
             if los then
               reveal_row (g\<lparr>visible := insert (x, y) (visible g),
                             explored := insert (x, y) (explored g)\<rparr>) x0 y0 r2 y xs
             else reveal_row g x0 y0 r2 y xs)
      else reveal_row g x0 y0 r2 y xs)"

primrec reveal_rows :: "grid \<Rightarrow> int \<Rightarrow> int \<Rightarrow> int \<Rightarrow> int \<Rightarrow> int list \<Rightarrow> grid option" where
  "reveal_rows g x0 y0 radius r2 [] = Some g"
| "reveal_rows g x0 y0 radius r2 (y # ys) =
     (case reveal_row g x0 y0 r2 y (py_range (max 0 (x0 - radius)) (min (w g) (x0 + radius + 1))) of
        None \<Rightarrow> None
      | Some g' \<Rightarrow> reveal_rows g' x0 y0 radius r2 ys)"

definition reveal_from :: "grid \<Rightarrow> int \<Rightarrow> int \<Rightarrow> int \<Rightarrow> grid option" where
  "reveal_from g x0 y0 radius =
     (let g1 = g\<lparr>visible := {}\<rparr>;
          r2 = radius * radius
      in reveal_rows g1 x0 y0 radius r2 (py_range (max 0 (y0 - radius)) (min (h g1) (y0 + radius + 1))))"

subsection \<open>The line walk returns\<close>

text \<open>
  After \<open>a\<close> steps in \<open>x\<close> and \<open>b\<close> steps in \<open>y\<close> the error term is
  \<open>dx * (1 + b) + dy * (1 + a)\<close>. Every round makes at least one of the two steps, and
  neither coordinate steps past its target, so the distance left to walk decreases.
\<close>

lemma bresenham_loop_returns:
  fixes a b :: nat
  assumes "dx = \<bar>x1 - x0\<bar>" "dy = - \<bar>y1 - y0\<bar>"
    and "sx = (if x0 < x1 then 1 else - 1)" "sy = (if y0 < y1 then 1 else - 1)"
    and "int a \<le> dx" "int b \<le> - dy"
    and "x = x0 + sx * int a" "y = y0 + sy * int b"
    and "err = dx * (1 + int b) + dy * (1 + int a)"
  shows "\<exists>cells. bresenham_loop x1 y1 dx dy sx sy x y err = Some cells"
  using assms
proof (induction "nat (dx - int a) + nat (- dy - int b)" arbitrary: a b x y err rule: less_induct)
  case less
  show ?case
  proof (cases "x = x1 \<and> y = y1")
    case True
    then show ?thesis by (subst bresenham_loop.simps) simp
  next
    case False
    have xa: "x = x1 \<longleftrightarrow> int a = dx" using less.prems by (auto split: if_splits)
    have yb: "y = y1 \<longleftrightarrow> int b = - dy" using less.prems by (auto split: if_splits)
    let ?DY = "- dy"
    let ?stepx = "2 * err \<ge> dy"
    let ?stepy = "2 * err \<le> dx"
    have some: "?stepx \<or> ?stepy" using less.prems by (auto split: if_splits)
    have nox: "\<not> ?stepx" if "int a = dx"
    proof -
      from that False xa yb have bl: "int b + 1 \<le> ?DY" using less.prems by auto
      have "dx * (1 + int b) \<le> dx * ?DY" using bl less.prems(5) by (intro mult_left_mono) auto
      moreover have "err = dx * (1 + int b) - ?DY * (1 + dx)" using less.prems that by (simp add: algebra_simps)
      ultimately show ?thesis using bl by (simp add: algebra_simps)
    qed
    have noy: "\<not> ?stepy" if "int b = ?DY"
    proof -
      from that False xa yb have al: "int a + 1 \<le> dx" using less.prems by auto
      have "?DY * (1 + int a) \<le> ?DY * dx" using al less.prems(6) by (intro mult_left_mono) auto
      moreover have "err = dx * (1 + ?DY) - ?DY * (1 + int a)" using less.prems that by (simp add: algebra_simps)
      ultimately show ?thesis using al by (simp add: algebra_simps)
    qed
    define a' where "a' = (if ?stepx then Suc a else a)"
    define b' where "b' = (if ?stepy then Suc b else b)"
    define x' where "x' = (if ?stepx then x + sx else x)"
    define y' where "y' = (if ?stepy then y + sy else y)"
    define err' where "err' = (if ?stepx then err + dy else err)"
    define err'' where "err'' = (if ?stepy then err' + dx else err')"
    have 1: "int a' \<le> dx" using nox less.prems(5) by (cases "int a = dx") (auto simp: a'_def)
    have 2: "int b' \<le> - dy" using noy less.prems(6) by (cases "int b = - dy") (auto simp: b'_def)
    have 3: "x' = x0 + sx * int a'" using less.prems by (auto simp: x'_def a'_def algebra_simps)
    have 4: "y' = y0 + sy * int b'" using less.prems by (auto simp: y'_def b'_def algebra_simps)
    have 5: "err'' = dx * (1 + int b') + dy * (1 + int a')"
      using less.prems(9) by (auto simp: err''_def err'_def a'_def b'_def algebra_simps)
    have m: "nat (dx - int a') + nat (- dy - int b') < nat (dx - int a) + nat (- dy - int b)"
      using some 1 2 less.prems(5,6) by (auto simp: a'_def b'_def)
    from less.hyps[OF m less.prems(1-4) 1 2 3 4 5]
    obtain cells where "bresenham_loop x1 y1 dx dy sx sy x' y' err'' = Some cells" by blast
    moreover have "bresenham_loop x1 y1 dx dy sx sy x y err =
        Option.bind (bresenham_loop x1 y1 dx dy sx sy x' y' err'') (\<lambda>rest. Some ((x, y) # rest))"
      using False
      by (subst bresenham_loop.simps) (auto simp: Let_def x'_def y'_def err'_def err''_def)
    ultimately show ?thesis by simp
  qed
qed

lemma bresenham_returns: "\<exists>cells. bresenham x0 y0 x1 y1 = Some cells"
  unfolding bresenham_def Let_def
  by (rule bresenham_loop_returns [where a = 0 and b = 0 and ?x0.0 = x0 and ?y0.0 = y0]) simp_all

lemma has_los_returns: "\<exists>b. has_los g x0 y0 x1 y1 = Some b"
  using bresenham_returns [of x0 y0 x1 y1] by (auto simp: has_los_def)

subsection \<open>Fog monotonicity\<close>

lemma reveal_row_fog:
  "\<exists>g'. reveal_row g x0 y0 r2 y xs = Some g' \<and>
     (visible g \<subseteq> explored g \<longrightarrow> visible g' \<subseteq> explored g') \<and> explored g \<subseteq> explored g'"
proof (induction xs arbitrary: g)
  case Nil
  then show ?case by simp
next
  case (Cons x xs)
  let ?g1 = "g\<lparr>visible := insert (x, y) (visible g), explored := insert (x, y) (explored g)\<rparr>"
  obtain b where b: "has_los g x0 y0 x y = Some b"
    using has_los_returns by blast
  from Cons.IH [of g] Cons.IH [of ?g1] show ?case
    by (auto simp: Let_def b)
qed

lemma reveal_rows_fog:
  "\<exists>g'. reveal_rows g x0 y0 radius r2 ys = Some g' \<and>
     (visible g \<subseteq> explored g \<longrightarrow> visible g' \<subseteq> explored g') \<and> explored g \<subseteq> explored g'"
proof (induction ys arbitrary: g)
  case Nil
  then show ?case by simp
next
  case (Cons y ys)
  obtain g1 where g1:
    "reveal_row g x0 y0 r2 y (py_range (max 0 (x0 - radius)) (min (w g) (x0 + radius + 1))) = Some g1"
    "visible g \<subseteq> explored g \<longrightarrow> visible g1 \<subseteq> explored g1" "explored g \<subseteq> explored g1"
    using reveal_row_fog by blast
  obtain g2 where g2: "reveal_rows g1 x0 y0 radius r2 ys = Some g2"
    "visible g1 \<subseteq> explored g1 \<longrightarrow> visible g2 \<subseteq> explored g2" "explored g1 \<subseteq> explored g2"
    using Cons.IH [of g1] by blast
  have "reveal_rows g x0 y0 radius r2 (y # ys) = Some g2"
    by (simp add: g1(1) g2(1))
  moreover have "visible g \<subseteq> explored g \<longrightarrow> visible g2 \<subseteq> explored g2"
    using g1(2) g2(2) by blast
  moreover have "explored g \<subseteq> explored g2"
    using g1(3) g2(3) by blast
  ultimately show ?case by blast
qed

lemma wf_open_grid: "wf_grid (open_grid c r)"
  by (auto simp: wf_grid_def open_grid_def list_all_iff)

text \<open>
  Claim C10. On a well-formed grid every \<^verbatim>\<open>reveal_from(origin, radius)\<close> call returns,
  and in the grid it leaves the visible set is a subset of the explored set and every
  cell explored before the call is still explored, whether or not it is still visible.
\<close>

theorem reveal_from_fog:
  assumes "wf_grid g"
  shows "\<exists>g'. reveal_from g x0 y0 radius = Some g' \<and>
           visible g' \<subseteq> explored g' \<and> explored g \<subseteq> explored g'"
  using reveal_rows_fog [of "g\<lparr>visible := {}\<rparr>" x0 y0 radius "radius * radius"]
  by (auto simp: reveal_from_def Let_def)

theorem reveal_from_fog_witness:
  "wf_grid ((open_grid 3 3)\<lparr>visible := {(2, 2)}, explored := {(2, 2)}\<rparr>) \<and>
   (\<exists>g'. reveal_from ((open_grid 3 3)\<lparr>visible := {(2, 2)}, explored := {(2, 2)}\<rparr>) 0 0 1 = Some g' \<and>
      visible g' \<subseteq> explored g' \<and> (2, 2) \<in> explored g')"
proof -
  let ?g = "(open_grid 3 3)\<lparr>visible := {(2, 2)}, explored := {(2, 2)}\<rparr>"
  have wf: "wf_grid ?g"
    using wf_open_grid [of 3 3] by (simp add: wf_grid_def)
  from reveal_from_fog [OF wf, of 0 0 1] show ?thesis
    using wf by auto
qed

section \<open>Components (components.py)\<close>

text \<open>
  Each dataclass the systems read field by field is a record; a component value is one
  of the dataclasses, and \<open>type_of\<close> is Python's \<^verbatim>\<open>type(component)\<close>.
\<close>

record position =
  gx :: int
  gy :: int
  px :: real
  py :: real

record motion =
  path :: "cell list"
  speed_tps :: real

record ap =
  current :: int
  maximum :: int

datatype ctype =
  TPosition | TMotion | TRenderable | TAP | TFaction | TSolid | TOpaque | TSelected | TPathPlan | TPatrol

datatype component =
  CPosition position
| CMotion motion
| CRenderable int "int \<times> int \<times> int"
| CAP ap
| CFaction string
| CSolid
| COpaque
| CSelected
| CPathPlan "cell option" "cell list"
| CPatrol "cell list" int

fun type_of :: "component \<Rightarrow> ctype" where
  "type_of (CPosition _) = TPosition"
| "type_of (CMotion _) = TMotion"
| "type_of (CRenderable _ _) = TRenderable"
| "type_of (CAP _) = TAP"
| "type_of (CFaction _) = TFaction"
| "type_of CSolid = TSolid"
| "type_of COpaque = TOpaque"
| "type_of CSelected = TSelected"
| "type_of (CPathPlan _ _) = TPathPlan"
| "type_of (CPatrol _ _) = TPatrol"

section \<open>Component store and query cache (ecs.py)\<close>

text \<open>
  \<^verbatim>\<open>stores\<close> is a dictionary of dictionaries. The outer one is iterated by
  \<^verbatim>\<open>destroy\<close>, so it is an association list in insertion order; the inner ones are
  finite maps from entity to component. The cache and the dirty flags are keyed by the
  \<^verbatim>\<open>frozenset\<close> of the requested types, a set of types here. \<^verbatim>\<open>_comp_to_views\<close> is a
  \<^verbatim>\<open>defaultdict(list)\<close>: a function whose default is the empty list.
\<close>

type_synonym store = "(entity, component) fmap"
type_synonym view_result = "entity list \<times> component list list"

record cache_stats =
  hits :: nat
  misses :: nat

record world =
  next_eid :: int
  stores :: "(ctype \<times> store) list"
  view_cache :: "ctype set \<rightharpoonup> view_result"
  view_dirty :: "ctype set \<rightharpoonup> bool"
  comp_to_views :: "ctype \<Rightarrow> ctype set list"
  stats :: cache_stats

definition new_world :: world where
  "new_world = \<lparr>next_eid = 1, stores = [], view_cache = Map.empty, view_dirty = Map.empty,
                 comp_to_views = (\<lambda>_. []), stats = \<lparr>hits = 0, misses = 0\<rparr>\<rparr>"

definition create :: "world \<Rightarrow> entity \<times> world" where
  "create wd = (next_eid wd, wd\<lparr>next_eid := next_eid wd + 1\<rparr>)"

definition mark_dirty_for :: "world \<Rightarrow> ctype \<Rightarrow> world" where
  "mark_dirty_for wd ct =
     wd\<lparr>view_dirty := fold (\<lambda>key d. d(key \<mapsto> True)) (comp_to_views wd ct) (view_dirty wd)\<rparr>"

definition add :: "world \<Rightarrow> entity \<Rightarrow> component \<Rightarrow> world" where
  "add wd e c =
     (let ct = type_of c;
          store = (case map_of (stores wd) ct of None \<Rightarrow> fmempty | Some s \<Rightarrow> s)
      in mark_dirty_for (wd\<lparr>stores := AList.update ct (fmupd e c store) (stores wd)\<rparr>) ct)"

definition get :: "world \<Rightarrow> entity \<Rightarrow> ctype \<Rightarrow> component option" where
  "get wd e ct = (case map_of (stores wd) ct of None \<Rightarrow> None | Some s \<Rightarrow> fmlookup s e)"

definition remove :: "world \<Rightarrow> entity \<Rightarrow> ctype \<Rightarrow> world" where
  "remove wd e ct =
     (case map_of (stores wd) ct of
        None \<Rightarrow> wd
      | Some s \<Rightarrow>
          if e |\<in>| fmdom s
          then mark_dirty_for (wd\<lparr>stores := AList.update ct (fmdrop e s) (stores wd)\<rparr>) ct
          else wd)"

text \<open>
  \<^verbatim>\<open>destroy\<close> walks the outer dictionary; only the inner dictionaries change on the
  way, so the walk is over the keys present at the start. The body of the loop is what
  \<^verbatim>\<open>remove\<close> does for that type.
\<close>

definition destroy :: "world \<Rightarrow> entity \<Rightarrow> world" where
  "destroy wd e = fold (\<lambda>ct wd'. remove wd' e ct) (map fst (stores wd)) wd"

subsection \<open>Views\<close>

text \<open>
  The build of a view, as the cache-miss path of \<^verbatim>\<open>view\<close> computes it from the stores
  alone. \<^verbatim>\<open>self.stores[ct][e]\<close> raises \<^verbatim>\<open>KeyError\<close> on a missing key: \<open>None\<close> here.
\<close>

definition store_ids :: "(ctype \<times> store) list \<Rightarrow> ctype \<Rightarrow> entity set" where
  "store_ids ss ct = (case map_of ss ct of None \<Rightarrow> {} | Some s \<Rightarrow> fmdom' s)"

definition view_entities :: "(ctype \<times> store) list \<Rightarrow> ctype list \<Rightarrow> entity set option" where
  "view_entities ss cts =
     fold (\<lambda>ct entities. case entities of None \<Rightarrow> Some (store_ids ss ct)
                                     | Some es \<Rightarrow> Some (es \<inter> store_ids ss ct)) cts None"

definition lookup_comp :: "(ctype \<times> store) list \<Rightarrow> ctype \<Rightarrow> entity \<Rightarrow> component option" where
  "lookup_comp ss ct e = (case map_of ss ct of None \<Rightarrow> None | Some s \<Rightarrow> fmlookup s e)"

definition view_build :: "(ctype \<times> store) list \<Rightarrow> ctype list \<Rightarrow> view_result option" where
  "view_build ss cts =
     (let ent_sorted = sorted_list_of_set (case view_entities ss cts of None \<Rightarrow> {} | Some es \<Rightarrow> es)
      in case those (map (\<lambda>e. those (map (\<lambda>ct. lookup_comp ss ct e) cts)) ent_sorted) of
           None \<Rightarrow> None
         | Some comps_rows \<Rightarrow> Some (ent_sorted, comps_rows))"

definition view :: "world \<Rightarrow> ctype list \<Rightarrow> (view_result \<times> world) option" where
  "view wd comp_types =
     (let key = set comp_types;
          cached = view_cache wd key;
          dirty = (case view_dirty wd key of None \<Rightarrow> True | Some d \<Rightarrow> d)
      in if cached \<noteq> None \<and> \<not> dirty
         then Some (the cached, wd\<lparr>stats := (stats wd)\<lparr>hits := hits (stats wd) + 1\<rparr>\<rparr>)
         else
           case view_build (stores wd) comp_types of
             None \<Rightarrow> None
           | Some result \<Rightarrow>
               Some (result,
                 wd\<lparr>view_cache := (view_cache wd)(key \<mapsto> result),
                    view_dirty := (view_dirty wd)(key \<mapsto> False),
                    comp_to_views := (\<lambda>ct. if ct \<in> key \<and> key \<notin> set (comp_to_views wd ct)
                                            then comp_to_views wd ct @ [key]
                                            else comp_to_views wd ct),
                    stats := (stats wd)\<lparr>misses := misses (stats wd) + 1\<rparr>\<rparr>))"

subsection \<open>The build never raises\<close>

lemma those_all_Some: "(\<forall>x \<in> set xs. x \<noteq> None) \<Longrightarrow> those xs = Some (map the xs)"
  by (induction xs) auto

lemma view_entities_fold:
  "fold (\<lambda>ct entities. case entities of None \<Rightarrow> Some (store_ids ss ct)
                                   | Some es \<Rightarrow> Some (es \<inter> store_ids ss ct)) cts (Some A) =
   Some (A \<inter> (\<Inter>ct \<in> set cts. store_ids ss ct))"
  by (induction cts arbitrary: A) auto

lemma view_entities_eq:
  "view_entities ss cts = (if cts = [] then None else Some (\<Inter>ct \<in> set cts. store_ids ss ct))"
proof (cases cts)
  case Nil
  then show ?thesis by (simp add: view_entities_def)
next
  case (Cons ct rest)
  then show ?thesis
    by (simp add: view_entities_def view_entities_fold)
qed

definition view_ids :: "(ctype \<times> store) list \<Rightarrow> ctype set \<Rightarrow> entity set" where
  "view_ids ss key = (if key = {} then {} else (\<Inter>ct \<in> key. store_ids ss ct))"

lemma view_entities_ids:
  "(case view_entities ss cts of None \<Rightarrow> {} | Some es \<Rightarrow> es) = view_ids ss (set cts)"
  by (simp add: view_entities_eq view_ids_def)

lemma finite_store_ids: "finite (store_ids ss ct)"
  by (simp add: store_ids_def split: option.splits)

lemma finite_view_ids: "finite (view_ids ss key)"
proof (cases "key = {}")
  case True
  then show ?thesis by (simp add: view_ids_def)
next
  case False
  then obtain ct where "ct \<in> key" by blast
  then have "view_ids ss key \<subseteq> store_ids ss ct"
    by (auto simp: view_ids_def)
  then show ?thesis
    using finite_store_ids finite_subset by blast
qed

lemma lookup_comp_in_ids: "e \<in> store_ids ss ct \<Longrightarrow> lookup_comp ss ct e \<noteq> None"
  by (auto simp: store_ids_def lookup_comp_def fmdom'_alt_def fmlookup_dom_iff split: option.splits)

lemma view_build_eq:
  "view_build ss cts =
     Some (sorted_list_of_set (view_ids ss (set cts)),
           map (\<lambda>e. map (\<lambda>ct. the (lookup_comp ss ct e)) cts) (sorted_list_of_set (view_ids ss (set cts))))"
proof -
  let ?es = "sorted_list_of_set (view_ids ss (set cts))"
  have mem: "e \<in> store_ids ss ct" if "e \<in> set ?es" "ct \<in> set cts" for e ct
    using that finite_view_ids [of ss "set cts"] by (auto simp: view_ids_def split: if_splits)
  have row: "those (map (\<lambda>ct. lookup_comp ss ct e) cts) = Some (map (\<lambda>ct. the (lookup_comp ss ct e)) cts)"
    if "e \<in> set ?es" for e
  proof -
    have "\<forall>x \<in> set (map (\<lambda>ct. lookup_comp ss ct e) cts). x \<noteq> None"
      using mem [OF that] lookup_comp_in_ids by auto
    from those_all_Some [OF this] show ?thesis by (simp add: comp_def)
  qed
  have "\<forall>x \<in> set (map (\<lambda>e. those (map (\<lambda>ct. lookup_comp ss ct e) cts)) ?es). x \<noteq> None"
    using row by auto
  from those_all_Some [OF this]
  have "those (map (\<lambda>e. those (map (\<lambda>ct. lookup_comp ss ct e) cts)) ?es) =
        Some (map (\<lambda>e. map (\<lambda>ct. the (lookup_comp ss ct e)) cts) ?es)"
    using row by (simp add: comp_def cong: map_cong)
  then show ?thesis
    by (simp add: view_build_def view_entities_ids Let_def)
qed

lemma view_returns: "\<exists>res wd'. view wd cts = Some (res, wd')"
  by (simp add: view_def Let_def view_build_eq)

lemma view_stores: "view wd cts = Some (res, wd') \<Longrightarrow> stores wd' = stores wd \<and> next_eid wd' = next_eid wd"
  by (auto simp: view_def Let_def split: if_splits option.splits)

subsection \<open>Cache coherence\<close>

text \<open>
  The scenario is the start of the program: \<^verbatim>\<open>build_world\<close> creates the player unit with
  its \<^verbatim>\<open>Position\<close>, \<^verbatim>\<open>Renderable\<close>, \<^verbatim>\<open>Faction\<close> and \<^verbatim>\<open>AP\<close>, and \<^verbatim>\<open>main\<close> then queries
  \<^verbatim>\<open>view(Faction, Position)\<close>, which fills the cache.
\<close>

definition cache_scenario :: world where
  "cache_scenario =
     (let (p1, w0) = create new_world;
          w1 = add w0 p1 (CPosition \<lparr>gx = 3, gy = 3, px = 0, py = 0\<rparr>);
          w2 = add w1 p1 (CRenderable 12 (255, 255, 255));
          w3 = add w2 p1 (CFaction ''player'');
          w4 = add w3 p1 (CAP \<lparr>current = 12, maximum = 12\<rparr>)
      in case view w4 [TFaction, TPosition] of None \<Rightarrow> w4 | Some (_, w5) \<Rightarrow> w5)"

text \<open>
  Claim C1. Every query returns what a recomputation from the current stores returns,
  rows in request order. The cache key is the \<^verbatim>\<open>frozenset\<close> of the requested types, so
  after \<^verbatim>\<open>view(Faction, Position)\<close> the query \<^verbatim>\<open>view(Position, Faction)\<close> of the input
  system is a cache hit and returns the rows of the first request, faction first, where
  the recomputation returns the position first.
\<close>

theorem view_request_order_divergence:
  "map_option fst (view cache_scenario [TPosition, TFaction]) =
     Some ([1], [[CFaction ''player'', CPosition \<lparr>gx = 3, gy = 3, px = 0, py = 0\<rparr>]]) \<and>
   view_build (stores cache_scenario) [TPosition, TFaction] =
     Some ([1], [[CPosition \<lparr>gx = 3, gy = 3, px = 0, py = 0\<rparr>, CFaction ''player'']])"
  by code_simp

subsection \<open>What the cache does keep\<close>

text \<open>
  The invariant of the cache: an entry that is not dirty is registered with every type of
  its key, and its result is the build, from the current stores, of some request with
  that set of types. So the entities of a cached result are always those of a fresh
  build, and its rows are those of the request that filled the entry.
\<close>

definition cache_inv :: "world \<Rightarrow> bool" where
  "cache_inv wd \<longleftrightarrow>
     (\<forall>key. view_dirty wd key = Some False \<longrightarrow>
        (\<forall>ct \<in> key. key \<in> set (comp_to_views wd ct)) \<and>
        (\<forall>res. view_cache wd key = Some res \<longrightarrow>
           (\<exists>cts. set cts = key \<and> view_build (stores wd) cts = Some res)))"

lemma fold_mark: "fold (\<lambda>key d. d(key \<mapsto> True)) ks d k = (if k \<in> set ks then Some True else d k)"
  by (induction ks arbitrary: d) auto

lemma view_dirty_mark:
  "view_dirty (mark_dirty_for wd ct) key =
     (if key \<in> set (comp_to_views wd ct) then Some True else view_dirty wd key)"
  by (simp add: mark_dirty_for_def fold_mark)

lemma view_build_cong:
  assumes "\<forall>t \<in> set cts. map_of ss' t = map_of ss t"
  shows "view_build ss' cts = view_build ss cts"
proof -
  have ids: "store_ids ss' t = store_ids ss t" if "t \<in> set cts" for t
    using assms that by (simp add: store_ids_def)
  have look: "lookup_comp ss' t e = lookup_comp ss t e" if "t \<in> set cts" for t e
    using assms that by (simp add: lookup_comp_def)
  have "view_ids ss' (set cts) = view_ids ss (set cts)"
    using ids by (simp add: view_ids_def)
  moreover have "map (\<lambda>ct. the (lookup_comp ss' ct e)) cts = map (\<lambda>ct. the (lookup_comp ss ct e)) cts" for e
    using look by simp
  ultimately show ?thesis by (simp add: view_build_eq)
qed

lemma cache_inv_stores:
  assumes inv: "cache_inv wd"
    and other: "\<forall>t. t \<noteq> ct \<longrightarrow> map_of ss' t = map_of (stores wd) t"
  shows "cache_inv (mark_dirty_for (wd\<lparr>stores := ss'\<rparr>) ct)"
  unfolding cache_inv_def
proof (intro allI impI)
  fix key
  let ?wd' = "mark_dirty_for (wd\<lparr>stores := ss'\<rparr>) ct"
  assume clean: "view_dirty ?wd' key = Some False"
  then have nreg: "key \<notin> set (comp_to_views wd ct)" and old: "view_dirty wd key = Some False"
    by (auto simp: view_dirty_mark split: if_splits)
  from inv old have reg: "\<forall>t \<in> key. key \<in> set (comp_to_views wd t)"
    and res: "\<forall>res. view_cache wd key = Some res \<longrightarrow>
           (\<exists>cts. set cts = key \<and> view_build (stores wd) cts = Some res)"
    unfolding cache_inv_def by blast+
  have notin: "ct \<notin> key" using reg nreg by blast
  have "\<exists>cts. set cts = key \<and> view_build ss' cts = Some r" if "view_cache wd key = Some r" for r
  proof -
    from res that obtain cts where cts: "set cts = key" "view_build (stores wd) cts = Some r" by blast
    have "\<forall>t \<in> set cts. map_of ss' t = map_of (stores wd) t" using other notin cts(1) by auto
    from view_build_cong [OF this] cts show ?thesis by auto
  qed
  then show "(\<forall>t \<in> key. key \<in> set (comp_to_views ?wd' t)) \<and>
        (\<forall>res. view_cache ?wd' key = Some res \<longrightarrow>
           (\<exists>cts. set cts = key \<and> view_build (stores ?wd') cts = Some res))"
    using reg by (simp add: mark_dirty_for_def)
qed

lemma cache_inv_add: "cache_inv wd \<Longrightarrow> cache_inv (add wd e c)"
  unfolding add_def Let_def by (rule cache_inv_stores) (simp_all add: update_conv')

lemma cache_inv_remove: "cache_inv wd \<Longrightarrow> cache_inv (remove wd e ct)"
  unfolding remove_def
  by (auto split: option.splits intro!: cache_inv_stores simp: update_conv')

lemma cache_inv_destroy: "cache_inv wd \<Longrightarrow> cache_inv (destroy wd e)"
proof -
  have "cache_inv wd \<Longrightarrow> cache_inv (fold (\<lambda>ct wd'. remove wd' e ct) cts wd)" for cts
    by (induction cts arbitrary: wd) (auto intro: cache_inv_remove)
  then show "cache_inv wd \<Longrightarrow> cache_inv (destroy wd e)"
    by (simp add: destroy_def)
qed

lemma cache_inv_new: "cache_inv new_world"
  by (simp add: cache_inv_def new_world_def)

text \<open>
  A query on a world that satisfies the invariant: it returns, the world it leaves
  satisfies the invariant and has the same stores, the entities are those of the build
  for the request, and the rows are those of the build for a request with the same set
  of types; on a miss the result is the build for the request itself.
\<close>

lemma view_coherent:
  assumes inv: "cache_inv wd"
  shows "\<exists>res wd'. view wd cts = Some (res, wd') \<and> cache_inv wd' \<and> stores wd' = stores wd \<and>
           (\<exists>cts'. set cts' = set cts \<and> view_build (stores wd) cts' = Some res) \<and>
           fst res = sorted_list_of_set (view_ids (stores wd) (set cts)) \<and>
           (view_cache wd (set cts) = None \<or> view_dirty wd (set cts) \<noteq> Some False \<longrightarrow>
              view_build (stores wd) cts = Some res)"
proof (cases "view_cache wd (set cts) \<noteq> None \<and> view_dirty wd (set cts) = Some False")
  case True
  then obtain res where res: "view_cache wd (set cts) = Some res" by auto
  let ?wd' = "wd\<lparr>stats := (stats wd)\<lparr>hits := hits (stats wd) + 1\<rparr>\<rparr>"
  have v: "view wd cts = Some (res, ?wd')"
    using True res by (simp add: view_def Let_def)
  from inv True res obtain cts' where cts': "set cts' = set cts" "view_build (stores wd) cts' = Some res"
    unfolding cache_inv_def by blast
  have "fst res = sorted_list_of_set (view_ids (stores wd) (set cts))"
    using cts' by (auto simp: view_build_eq)
  moreover have "cache_inv ?wd'" using inv by (simp add: cache_inv_def)
  ultimately show ?thesis using v cts' True by auto
next
  case False
  obtain res where res: "view_build (stores wd) cts = Some res"
    by (simp add: view_build_eq)
  let ?key = "set cts"
  let ?wd' = "wd\<lparr>view_cache := (view_cache wd)(?key \<mapsto> res),
                 view_dirty := (view_dirty wd)(?key \<mapsto> False),
                 comp_to_views := (\<lambda>ct. if ct \<in> ?key \<and> ?key \<notin> set (comp_to_views wd ct)
                                         then comp_to_views wd ct @ [?key]
                                         else comp_to_views wd ct),
                 stats := (stats wd)\<lparr>misses := misses (stats wd) + 1\<rparr>\<rparr>"
  have dirty: "\<not> (view_cache wd ?key \<noteq> None \<and> \<not> (case view_dirty wd ?key of None \<Rightarrow> True | Some d \<Rightarrow> d))"
    using False by (auto split: option.splits)
  have v: "view wd cts = Some (res, ?wd')"
    unfolding view_def Let_def by (subst if_not_P [OF dirty]) (simp add: res)
  have inv': "cache_inv ?wd'"
    unfolding cache_inv_def
  proof (intro allI impI)
    fix key
    assume clean: "view_dirty ?wd' key = Some False"
    show "(\<forall>ct \<in> key. key \<in> set (comp_to_views ?wd' ct)) \<and>
        (\<forall>r. view_cache ?wd' key = Some r \<longrightarrow>
           (\<exists>cts. set cts = key \<and> view_build (stores ?wd') cts = Some r))"
    proof (cases "key = ?key")
      case True
      then show ?thesis using res by auto
    next
      case ne: False
      then have old: "view_dirty wd key = Some False" using clean by simp
      from inv old have reg: "\<forall>t \<in> key. key \<in> set (comp_to_views wd t)"
        and r: "\<forall>r. view_cache wd key = Some r \<longrightarrow>
               (\<exists>cts. set cts = key \<and> view_build (stores wd) cts = Some r)"
        unfolding cache_inv_def by blast+
      show ?thesis using reg r ne by auto
    qed
  qed
  have "fst res = sorted_list_of_set (view_ids (stores wd) (set cts))"
    using res by (auto simp: view_build_eq)
  then show ?thesis using v inv' res by auto
qed

text \<open>The operations of the store, and the invariant in every state they reach.\<close>

datatype store_op = Add entity component | Remove entity ctype | Destroy entity | View "ctype list"

fun apply_store_op :: "store_op \<Rightarrow> world \<Rightarrow> world" where
  "apply_store_op (Add e c) wd = add wd e c"
| "apply_store_op (Remove e ct) wd = remove wd e ct"
| "apply_store_op (Destroy e) wd = destroy wd e"
| "apply_store_op (View cts) wd = (case view wd cts of None \<Rightarrow> wd | Some (_, wd') \<Rightarrow> wd')"

lemma cache_inv_ops: "cache_inv wd \<Longrightarrow> cache_inv (fold apply_store_op ops wd)"
proof (induction ops arbitrary: wd)
  case Nil
  then show ?case by simp
next
  case (Cons op ops)
  have "cache_inv (apply_store_op op wd)"
  proof (cases op)
    case (View cts)
    from view_coherent [OF Cons.prems, of cts] show ?thesis
      by (auto simp: View)
  qed (use Cons.prems in \<open>simp_all add: cache_inv_add cache_inv_remove cache_inv_destroy\<close>)
  from Cons.IH [OF this] show ?case by simp
qed

lemma view_after_ops:
  "\<exists>res wd'. view (fold apply_store_op ops new_world) cts = Some (res, wd') \<and>
     (\<exists>cts'. set cts' = set cts \<and> view_build (stores (fold apply_store_op ops new_world)) cts' = Some res) \<and>
     fst res = sorted_list_of_set (view_ids (stores (fold apply_store_op ops new_world)) (set cts))"
  using view_coherent [OF cache_inv_ops [OF cache_inv_new], of ops cts] by blast

section \<open>Motion system (systems/motion.py)\<close>

text \<open>
  The rows a view returns hold the stored component objects themselves, so the
  assignments \<^verbatim>\<open>pos.gx = nx\<close>, \<^verbatim>\<open>ap.current = ...\<close> and the queue operations of the
  system change the store entries of the entity, without a dirty mark: \<open>put\<close>. Each
  entity owns its component objects (one instance per entity per type). The per-step
  budget \<^verbatim>\<open>remaining\<close> is a float in the source and a real here; it only takes part in
  the test \<^verbatim>\<open>remaining > 0.0\<close> and in \<^verbatim>\<open>remaining -= 1.0\<close>.
\<close>

definition EPS :: real where
  "EPS = 1 / 32"

definition put :: "world \<Rightarrow> entity \<Rightarrow> component \<Rightarrow> world" where
  "put wd e c =
     (let ct = type_of c;
          store = (case map_of (stores wd) ct of None \<Rightarrow> fmempty | Some s \<Rightarrow> s)
      in wd\<lparr>stores := AList.update ct (fmupd e c store) (stores wd)\<rparr>)"

definition step_to :: "grid \<Rightarrow> entity \<Rightarrow> int \<Rightarrow> int \<Rightarrow> int \<Rightarrow> int \<Rightarrow> bool \<times> grid" where
  "step_to g eid x0 y0 x1 y1 =
     (let g1 = vacate g x0 y0 eid;
          (ok, g2) = occupy g1 x1 y1 eid
      in if \<not> ok then (False, snd (occupy g2 x0 y0 eid)) else (True, g2))"

text \<open>
  The \<^verbatim>\<open>while\<close> loop of \<^verbatim>\<open>update\<close> for one entity, by recursion on the queue. It returns
  the grid, the position, the action points and the queue it leaves.
\<close>

fun advance :: "entity \<Rightarrow> grid \<Rightarrow> real \<Rightarrow> position \<Rightarrow> ap \<Rightarrow> cell list \<Rightarrow> grid \<times> position \<times> ap \<times> cell list" where
  "advance eid g remaining pos a [] = (g, pos, a, [])"
| "advance eid g remaining pos a ((nx, ny) # rest) =
     (if remaining > 0 \<and> current a > 0 then
        let dx = nx - gx pos;
            dy = ny - gy pos;
            dist = \<bar>dx\<bar> + \<bar>dy\<bar>
        in if real_of_int dist \<le> EPS then
             (case step_to g eid (gx pos) (gy pos) nx ny of
                (False, g') \<Rightarrow> (g', pos, a, [])
              | (True, g') \<Rightarrow>
                  advance eid g' remaining (pos\<lparr>gx := nx, gy := ny\<rparr>)
                    (a\<lparr>current := max 0 (current a - 1)\<rparr>) rest)
           else
             (case step_to g eid (gx pos) (gy pos) nx ny of
                (True, g') \<Rightarrow>
                  advance eid g' (remaining - 1) (pos\<lparr>gx := nx, gy := ny\<rparr>)
                    (a\<lparr>current := max 0 (current a - 1)\<rparr>) rest
              | (False, g') \<Rightarrow> (g', pos, a, []))
      else (g, pos, a, (nx, ny) # rest))"

text \<open>The body of the \<^verbatim>\<open>for\<close> loop: one entity of the view.\<close>

definition update_entity :: "real \<Rightarrow> entity \<Rightarrow> world \<times> grid \<Rightarrow> world \<times> grid" where
  "update_entity dt eid s =
     (case s of (wd, g) \<Rightarrow>
      (case (get wd eid TPosition, get wd eid TMotion, get wd eid TAP) of
         (Some (CPosition pos), Some (CMotion mo), Some (CAP a)) \<Rightarrow>
           (let remaining = speed_tps mo * dt;
                pos1 = pos\<lparr>px := real_of_int (gx pos), py := real_of_int (gy pos)\<rparr>
            in (case advance eid g remaining pos1 a (path mo) of
                  (g', pos', a', path') \<Rightarrow>
                    (put (put (put wd eid (CPosition pos')) eid (CMotion (mo\<lparr>path := path'\<rparr>))) eid (CAP a'), g')))
       | _ \<Rightarrow> (wd, g)))"

definition update :: "real \<Rightarrow> world \<times> grid \<Rightarrow> (world \<times> grid) option" where
  "update dt s =
     (case s of (wd, g) \<Rightarrow>
      (case view wd [TPosition, TMotion, TAP] of
         None \<Rightarrow> None
       | Some ((eids, rows), wd') \<Rightarrow> Some (fold (update_entity dt) eids (wd', g))))"

subsection \<open>Reading and writing components\<close>

lemma get_put: "get (put wd e c) e' ct = (if ct = type_of c \<and> e' = e then Some c else get wd e' ct)"
  by (auto simp: get_def put_def Let_def update_conv' split: option.splits)

subsection \<open>One step\<close>



subsection \<open>The walk along the queue\<close>





text \<open>What \<^verbatim>\<open>update\<close> leaves of an entity, given what the walk returns.\<close>

lemma update_entity_eq:
  assumes "get wd e TPosition = Some (CPosition pos0)" "get wd e TMotion = Some (CMotion mo)"
    and "get wd e TAP = Some (CAP a)"
    and "advance e g (speed_tps mo * dt) (pos0\<lparr>px := real_of_int (gx pos0), py := real_of_int (gy pos0)\<rparr>) a (path mo) =
           (g', pos', a', path')"
  shows "\<exists>wd'. update_entity dt e (wd, g) = (wd', g') \<and>
           get wd' e TPosition = Some (CPosition pos') \<and>
           get wd' e TMotion = Some (CMotion (mo\<lparr>path := path'\<rparr>)) \<and>
           get wd' e TAP = Some (CAP a') \<and>
           (\<forall>e' ct. e' \<noteq> e \<longrightarrow> get wd' e' ct = get wd e' ct)"
  using assms by (simp add: update_entity_def Let_def get_put)

subsection \<open>Scenarios\<close>

text \<open>
  A corridor of five cells. Entity 1 stands on \<open>(0, 0)\<close> with a queue and action points
  given by the test; \<open>corridor_world\<close> builds its components through \<^verbatim>\<open>add\<close>.
\<close>

definition corridor_world :: "cell list \<Rightarrow> int \<Rightarrow> world" where
  "corridor_world queue points =
     add (add (add new_world 1 (CPosition \<lparr>gx = 0, gy = 0, px = 0, py = 0\<rparr>))
            1 (CMotion \<lparr>path = queue, speed_tps = 6\<rparr>))
       1 (CAP \<lparr>current = points, maximum = 12\<rparr>)"

definition corridor_grid :: "(cell \<times> entity) list \<Rightarrow> grid" where
  "corridor_grid claims = (open_grid 6 1)\<lparr>occupants := map_of claims\<rparr>"



section \<open>Motion and action points in lockstep\<close>




section \<open>Occupancy conflict\<close>




section \<open>One cell per entity\<close>

text \<open>
  The operations that change the occupancy mapping: the two grid calls and a step of
  the motion system. A run applies them in order.
\<close>

datatype sim_op = Occupy int int entity | Vacate int int entity | MotionStep real

fun apply_op :: "sim_op \<Rightarrow> world \<times> grid \<Rightarrow> (world \<times> grid) option" where
  "apply_op (Occupy x y e) (wd, g) = Some (wd, snd (occupy g x y e))"
| "apply_op (Vacate x y e) (wd, g) = Some (wd, vacate g x y e)"
| "apply_op (MotionStep dt) (wd, g) = update dt (wd, g)"

fun run :: "sim_op list \<Rightarrow> world \<times> grid \<Rightarrow> (world \<times> grid) option" where
  "run [] s = Some s"
| "run (op # ops) s = (case apply_op op s of None \<Rightarrow> None | Some s' \<Rightarrow> run ops s')"

definition one_cell_each :: "grid \<Rightarrow> bool" where
  "one_cell_each g \<longleftrightarrow> (\<forall>e c c'. occupants g c = Some e \<and> occupants g c' = Some e \<longrightarrow> c = c')"

text \<open>
  The discipline under which the property holds: every claim in the mapping is on the
  cell of the claimant's \<^verbatim>\<open>Position\<close>, and \<^verbatim>\<open>occupy\<close> is only called for that cell, as
  \<^verbatim>\<open>build_world\<close> and \<^verbatim>\<open>_step_to\<close> do.
\<close>

definition position_cell :: "world \<Rightarrow> entity \<Rightarrow> cell option" where
  "position_cell wd e =
     (case get wd e TPosition of Some (CPosition p) \<Rightarrow> Some (gx p, gy p) | _ \<Rightarrow> None)"

definition occ_synced :: "world \<times> grid \<Rightarrow> bool" where
  "occ_synced s \<longleftrightarrow> (\<forall>c e. occupants (snd s) c = Some e \<longrightarrow> position_cell (fst s) e = Some c)"

fun op_ok :: "sim_op \<Rightarrow> world \<times> grid \<Rightarrow> bool" where
  "op_ok (Occupy x y e) (wd, g) = (position_cell wd e = Some (x, y))"
| "op_ok _ _ = True"

fun disciplined :: "sim_op list \<Rightarrow> world \<times> grid \<Rightarrow> bool" where
  "disciplined [] s = True"
| "disciplined (op # ops) s =
     (op_ok op s \<and> (case apply_op op s of None \<Rightarrow> False | Some s' \<Rightarrow> disciplined ops s'))"

subsection \<open>Claims of the moving entity, claims of the others\<close>

lemma step_to_frame:
  assumes "step_to g e x0 y0 x1 y1 = (ok, g')"
  shows "(\<forall>c e'. e' \<noteq> e \<longrightarrow> (occupants g' c = Some e' \<longleftrightarrow> occupants g c = Some e')) \<and>
         (\<forall>c. occupants g' c = Some e \<longrightarrow>
            (if ok then c = (x1, y1) \<or> (c \<noteq> (x0, y0) \<and> occupants g c = Some e)
             else c = (x0, y0) \<or> occupants g c = Some e))"
  using assms
  by (auto simp: step_to_def occupy_def vacate_def Let_def dom_def split: if_splits)

lemma advance_claims:
  assumes "\<forall>c. occupants g c = Some e \<longrightarrow> c = (gx pos0, gy pos0)"
    and "advance e g remaining pos0 a p = (g', pos', a', p')"
  shows "(\<forall>c. occupants g' c = Some e \<longrightarrow> c = (gx pos', gy pos')) \<and>
         (\<forall>c e'. e' \<noteq> e \<longrightarrow> (occupants g' c = Some e' \<longleftrightarrow> occupants g c = Some e'))"
  using assms
proof (induction p arbitrary: g remaining pos0 a)
  case Nil
  then show ?case by simp
next
  case (Cons c rest)
  obtain nx ny where c: "c = (nx, ny)" by (cases c)
  show ?case
  proof (cases "remaining > 0 \<and> current a > 0")
    case False
    then show ?thesis using Cons.prems by (auto simp: c)
  next
    case True
    obtain ok g1 where st: "step_to g e (gx pos0) (gy pos0) nx ny = (ok, g1)"
      by (cases "step_to g e (gx pos0) (gy pos0) nx ny")
    note fr = step_to_frame [OF st]
    show ?thesis
    proof (cases ok)
      case False
      then have "advance e g remaining pos0 a (c # rest) = (g1, pos0, a, [])"
        using True st by (simp add: c Let_def)
      then have eq: "g' = g1" "pos' = pos0" using Cons.prems(2) by simp_all
      from fr False have "\<forall>c. occupants g1 c = Some e \<longrightarrow> c = (gx pos0, gy pos0) \<or> occupants g c = Some e"
        by (simp del: split_paired_All)
      then have "\<forall>c. occupants g1 c = Some e \<longrightarrow> c = (gx pos0, gy pos0)"
        using Cons.prems(1) by blast
      then show ?thesis using fr unfolding eq by blast
    next
      case ok: True
      let ?pos1 = "pos0\<lparr>gx := nx, gy := ny\<rparr>"
      let ?a1 = "a\<lparr>current := max 0 (current a - 1)\<rparr>"
      obtain r1 where adv: "advance e g remaining pos0 a (c # rest) = advance e g1 r1 ?pos1 ?a1 rest"
        using True st ok by (cases "real_of_int (\<bar>nx - gx pos0\<bar> + \<bar>ny - gy pos0\<bar>) \<le> EPS") (auto simp: c Let_def)
      from fr ok have "\<forall>c. occupants g1 c = Some e \<longrightarrow>
            c = (nx, ny) \<or> (c \<noteq> (gx pos0, gy pos0) \<and> occupants g c = Some e)"
        by (simp del: split_paired_All)
      then have "\<forall>c. occupants g1 c = Some e \<longrightarrow> c = (nx, ny)"
        using Cons.prems(1) by blast
      then have p1: "\<forall>c. occupants g1 c = Some e \<longrightarrow> c = (gx ?pos1, gy ?pos1)"
        by (simp del: split_paired_All)
      have p2: "advance e g1 r1 ?pos1 ?a1 rest = (g', pos', a', p')"
        using adv Cons.prems(2) by simp
      from Cons.IH [OF p1 p2] fr show ?thesis by simp
    qed
  qed
qed

lemma update_entity_synced:
  assumes "occ_synced s"
  shows "occ_synced (update_entity dt e s)"
proof -
  obtain wd g where s: "s = (wd, g)" by (cases s)
  show ?thesis
  proof (cases "\<exists>pos0 mo a. get wd e TPosition = Some (CPosition pos0) \<and>
                  get wd e TMotion = Some (CMotion mo) \<and> get wd e TAP = Some (CAP a)")
    case False
    then have "update_entity dt e s = s"
      by (auto simp: update_entity_def s split: option.splits component.splits)
    then show ?thesis using assms by simp
  next
    case True
    then obtain pos0 mo a where gets: "get wd e TPosition = Some (CPosition pos0)"
      "get wd e TMotion = Some (CMotion mo)" "get wd e TAP = Some (CAP a)"
      by blast
    let ?pos1 = "pos0\<lparr>px := real_of_int (gx pos0), py := real_of_int (gy pos0)\<rparr>"
    obtain g' pos' a' path' where adv:
      "advance e g (speed_tps mo * dt) ?pos1 a (path mo) = (g', pos', a', path')"
      by (cases "advance e g (speed_tps mo * dt) ?pos1 a (path mo)") auto
    from update_entity_eq [OF gets adv]
    obtain wd' where u: "update_entity dt e (wd, g) = (wd', g')"
      "get wd' e TPosition = Some (CPosition pos')"
      "\<forall>e' ct. e' \<noteq> e \<longrightarrow> get wd' e' ct = get wd e' ct"
      by blast
    have mine: "\<forall>c. occupants g c = Some e \<longrightarrow> c = (gx ?pos1, gy ?pos1)"
    proof (intro allI impI)
      fix c assume "occupants g c = Some e"
      then have "position_cell wd e = Some c"
        using assms unfolding occ_synced_def s fst_conv snd_conv by blast
      then show "c = (gx ?pos1, gy ?pos1)"
        using gets(1) by (simp add: position_cell_def)
    qed
    note cl = advance_claims [OF mine adv]
    have "position_cell wd' e' = Some c" if "occupants g' c = Some e'" for c e'
    proof (cases "e' = e")
      case True
      then have "c = (gx pos', gy pos')" using cl that by blast
      then show ?thesis using True u(2) by (simp add: position_cell_def)
    next
      case False
      then have "occupants g c = Some e'" using cl that by blast
      then have "position_cell wd e' = Some c"
        using assms unfolding occ_synced_def s fst_conv snd_conv by blast
      then show ?thesis using u(3) False by (simp add: position_cell_def)
    qed
    then show ?thesis unfolding occ_synced_def s u(1) fst_conv snd_conv by blast
  qed
qed

lemma fold_update_entity_synced:
  "occ_synced s \<Longrightarrow> occ_synced (fold (update_entity dt) eids s)"
proof (induction eids arbitrary: s)
  case Nil
  then show ?case by simp
next
  case (Cons e eids)
  from Cons.IH [OF update_entity_synced [OF Cons.prems, of dt e]] show ?case by simp
qed

lemma update_synced:
  assumes "occ_synced s"
  shows "\<exists>s'. update dt s = Some s' \<and> occ_synced s'"
proof -
  obtain wd g where s: "s = (wd, g)" by (cases s)
  obtain eids rows wd' where v: "view wd [TPosition, TMotion, TAP] = Some ((eids, rows), wd')"
    using view_returns [of wd "[TPosition, TMotion, TAP]"] by auto
  have "stores wd' = stores wd" using view_stores [OF v] by simp
  then have "occ_synced (wd', g)"
    using assms unfolding occ_synced_def s position_cell_def get_def fst_conv snd_conv by simp
  then have "occ_synced (fold (update_entity dt) eids (wd', g))"
    by (rule fold_update_entity_synced)
  then show ?thesis by (simp add: update_def s v)
qed

lemma apply_op_synced:
  assumes "occ_synced s" "op_ok op s"
  shows "\<exists>s'. apply_op op s = Some s' \<and> occ_synced s'"
proof (cases op)
  case (Occupy x y e)
  obtain wd g where s: "s = (wd, g)" by (cases s)
  show ?thesis using assms
    by (auto simp: Occupy s occ_synced_def occupy_def Let_def split: if_splits)
next
  case (Vacate x y e)
  obtain wd g where s: "s = (wd, g)" by (cases s)
  show ?thesis using assms
    by (auto simp: Vacate s occ_synced_def vacate_def split: if_splits)
next
  case (MotionStep dt)
  obtain wd g where s: "s = (wd, g)" by (cases s)
  show ?thesis using update_synced [OF assms(1), of dt] by (simp add: MotionStep s)
qed

lemma run_synced:
  "occ_synced s \<Longrightarrow> disciplined ops s \<Longrightarrow> \<exists>s'. run ops s = Some s' \<and> occ_synced s'"
proof (induction ops arbitrary: s)
  case Nil
  then show ?case by simp
next
  case (Cons op ops)
  from Cons.prems have ok: "op_ok op s" by simp
  from apply_op_synced [OF Cons.prems(1) ok]
  obtain s1 where s1: "apply_op op s = Some s1" "occ_synced s1" by blast
  from Cons.prems(2) s1(1) have "disciplined ops s1" by simp
  from Cons.IH [OF s1(2) this] s1(1) show ?case by simp
qed

lemma synced_one_cell:
  assumes "occ_synced s"
  shows "one_cell_each (snd s)"
  unfolding one_cell_each_def
proof (intro allI impI)
  fix e c c'
  assume "occupants (snd s) c = Some e \<and> occupants (snd s) c' = Some e"
  then have "position_cell (fst s) e = Some c" "position_cell (fst s) e = Some c'"
    using assms unfolding occ_synced_def by blast+
  then show "c = c'" by simp
qed

text \<open>
  Claim C6, as amended. From a state in which every claim of the occupancy mapping is
  on the cell of the claimant's \<^verbatim>\<open>Position\<close> (the empty mapping of a fresh grid is one),
  every sequence of \<^verbatim>\<open>vacate\<close> calls, Motion System steps and \<^verbatim>\<open>occupy\<close> calls made for an
  entity's own \<^verbatim>\<open>Position\<close> cell runs to a state in which each entity is the occupant of
  at most one cell.
\<close>

theorem one_cell_per_entity:
  assumes "occ_synced s" "disciplined ops s"
  shows "\<exists>wd' g'. run ops s = Some (wd', g') \<and> one_cell_each g'"
proof -
  from run_synced [OF assms] obtain s' where s': "run ops s = Some s'" "occ_synced s'"
    by blast
  from synced_one_cell [OF s'(2)] s'(1) show ?thesis
    by (cases s') simp
qed

theorem one_cell_per_entity_witness:
  "occ_synced (corridor_world [(1, 0), (2, 0), (3, 0)] 2, corridor_grid []) \<and>
   disciplined [Occupy 0 0 1, MotionStep 1, Vacate 5 0 2, MotionStep 1]
     (corridor_world [(1, 0), (2, 0), (3, 0)] 2, corridor_grid []) \<and>
   (\<exists>wd' g'. run [Occupy 0 0 1, MotionStep 1, Vacate 5 0 2, MotionStep 1]
                (corridor_world [(1, 0), (2, 0), (3, 0)] 2, corridor_grid []) = Some (wd', g') \<and>
              one_cell_each g')"
proof -
  let ?s = "(corridor_world [(1, 0), (2, 0), (3, 0)] 2, corridor_grid [])"
  let ?ops = "[Occupy 0 0 1, MotionStep 1, Vacate 5 0 2, MotionStep 1]"
  have a: "occ_synced ?s"
    by (simp add: occ_synced_def corridor_grid_def)
  have b: "disciplined ?ops ?s"
    by code_simp
  from one_cell_per_entity [OF a b] a b show ?thesis by blast
qed

text \<open>
  The claim as stated fails for sequences of arbitrary \<^verbatim>\<open>occupy\<close> calls: the call does
  not look for another cell of the same entity, so two calls on two free cells leave the
  entity the occupant of both.
\<close>

theorem one_cell_per_entity_counterexample:
  "map_option (\<lambda>s. (occupants (snd s) (0, 0), occupants (snd s) (1, 0)))
     (run [Occupy 0 0 1, Occupy 1 0 1] (new_world, open_grid 3 3)) = Some (Some 1, Some 1)"
  by code_simp

section \<open>Pathing (pathing.py)\<close>

subsection \<open>Reachability flood\<close>

text \<open>
  The test a neighbour passes to be enqueued, after the \<^verbatim>\<open>seen\<close> test: in bounds,
  walkable terrain, and not occupied unless it is the start cell.
\<close>

definition flood_open :: "grid \<Rightarrow> cell \<Rightarrow> cell \<Rightarrow> bool" where
  "flood_open g start n \<longleftrightarrow>
     in_bounds g (fst n) (snd n) \<and> walkable_at g (fst n) (snd n) \<and>
     \<not> (n \<in> dom (occupants g) \<and> n \<noteq> start)"

text \<open>The \<^verbatim>\<open>for\<close> loop over the neighbours of the cell just taken from the queue.\<close>

fun flood_neighbors ::
  "grid \<Rightarrow> cell \<Rightarrow> int \<Rightarrow> cell list \<Rightarrow> cell set \<times> (int \<times> int \<times> int) list \<Rightarrow> cell set \<times> (int \<times> int \<times> int) list" where
  "flood_neighbors g start cost [] (seen, q) = (seen, q)"
| "flood_neighbors g start cost ((nx, ny) # ns) (seen, q) =
     (if (nx, ny) \<in> seen then flood_neighbors g start cost ns (seen, q)
      else if \<not> in_bounds g nx ny then flood_neighbors g start cost ns (seen, q)
      else if \<not> walkable_at g nx ny then flood_neighbors g start cost ns (seen, q)
      else if (nx, ny) \<in> dom (occupants g) \<and> (nx, ny) \<noteq> start then flood_neighbors g start cost ns (seen, q)
      else flood_neighbors g start cost ns (insert (nx, ny) seen, q @ [(nx, ny, cost + 1)]))"

text \<open>The cells one run of that loop adds, in order.\<close>

fun flood_new :: "grid \<Rightarrow> cell \<Rightarrow> cell list \<Rightarrow> cell set \<Rightarrow> cell list" where
  "flood_new g start [] seen = []"
| "flood_new g start (n # ns) seen =
     (if n \<notin> seen \<and> flood_open g start n then n # flood_new g start ns (insert n seen)
      else flood_new g start ns seen)"

lemma flood_neighbors_eq:
  "flood_neighbors g start cost ns (seen, q) =
     (seen \<union> set (flood_new g start ns seen),
      q @ map (\<lambda>n. (fst n, snd n, cost + 1)) (flood_new g start ns seen))"
  by (induction ns arbitrary: seen q) (auto simp: flood_open_def dom_def)

lemma flood_new_set:
  "set (flood_new g start ns seen) = {n \<in> set ns. n \<notin> seen \<and> flood_open g start n}"
  by (induction ns arbitrary: seen) auto

lemma flood_new_distinct: "distinct (flood_new g start ns seen)"
  by (induction ns arbitrary: seen) (auto simp: flood_new_set)

definition cells_in_bounds :: "grid \<Rightarrow> cell set" where
  "cells_in_bounds g = {0..<w g} \<times> {0..<h g}"

lemma finite_cells_in_bounds: "finite (cells_in_bounds g)"
  by (simp add: cells_in_bounds_def)

lemma in_bounds_cells: "in_bounds g x y \<longleftrightarrow> (x, y) \<in> cells_in_bounds g"
  by (auto simp: in_bounds_def cells_in_bounds_def)

lemma flood_new_measure:
  "2 * card (cells_in_bounds g - (seen \<union> set (flood_new g start ns seen))) + length (flood_new g start ns seen)
     \<le> 2 * card (cells_in_bounds g - seen)"
proof -
  let ?A = "set (flood_new g start ns seen)"
  let ?B = "cells_in_bounds g - seen"
  have sub: "?A \<subseteq> ?B"
    by (auto simp: flood_new_set flood_open_def in_bounds_cells [symmetric])
  have fin: "finite ?B" using finite_cells_in_bounds by simp
  have "card (?B - ?A) = card ?B - card ?A"
    using sub fin by (simp add: card_Diff_subset finite_subset)
  moreover have "card ?A \<le> card ?B" using sub fin by (simp add: card_mono)
  moreover have "card ?A = length (flood_new g start ns seen)"
    by (simp add: distinct_card flood_new_distinct)
  moreover have "cells_in_bounds g - (seen \<union> ?A) = ?B - ?A" by blast
  ultimately show ?thesis by simp
qed

text \<open>
  The \<^verbatim>\<open>while q\<close> loop. The queue holds triples \<^verbatim>\<open>(x, y, cost)\<close>; \<^verbatim>\<open>popleft\<close> takes the
  head of the list and \<^verbatim>\<open>append\<close> adds at its end.
\<close>

function flood_loop ::
  "grid \<Rightarrow> cell \<Rightarrow> int \<Rightarrow> (int \<times> int \<times> int) list \<Rightarrow> cell set \<Rightarrow> cell set \<Rightarrow> cell set" where
  "flood_loop g start ap [] seen out = out"
| "flood_loop g start ap ((x, y, cost) # q) seen out =
     (let out' = insert (x, y) out in
      if cost \<ge> ap then flood_loop g start ap q seen out'
      else
        case flood_neighbors g start cost (neighbors4 g x y) (seen, q) of
          (seen', q') \<Rightarrow> flood_loop g start ap q' seen' out')"
  by pat_completeness auto

termination
  apply (relation "measure (\<lambda>(g, start, ap, q, seen, out). 2 * card (cells_in_bounds g - seen) + length q)")
    apply simp
   apply simp
  apply (simp add: flood_neighbors_eq less_Suc_eq_le flood_new_measure)
  done

definition reachable_flood :: "grid \<Rightarrow> cell \<Rightarrow> int \<Rightarrow> cell set" where
  "reachable_flood g start ap =
     (case start of (sx, sy) \<Rightarrow>
        if \<not> in_bounds g sx sy then {}
        else flood_loop g start ap [(sx, sy, 0)] {(sx, sy)} {})"

subsection \<open>Reachability, as the flood explores it\<close>

definition adjacent4 :: "cell \<Rightarrow> cell \<Rightarrow> bool" where
  "adjacent4 a b \<longleftrightarrow> \<bar>fst a - fst b\<bar> + \<bar>snd a - snd b\<bar> = 1"

lemma neighbors4_adjacent: "n \<in> set (neighbors4 g x y) \<Longrightarrow> adjacent4 (x, y) n"
  by (auto simp: neighbors4_def adjacent4_def split: if_splits)

lemma adjacent_neighbors4:
  assumes "adjacent4 (x, y) n" "in_bounds g (fst n) (snd n)"
  shows "n \<in> set (neighbors4 g x y)"
proof -
  obtain nx ny where n: "n = (nx, ny)" by (cases n)
  from assms(1) have "(nx = x - 1 \<and> ny = y) \<or> (nx = x + 1 \<and> ny = y) \<or> (nx = x \<and> ny = y - 1) \<or> (nx = x \<and> ny = y + 1)"
    unfolding adjacent4_def n by auto
  with assms(2) show ?thesis
    unfolding n neighbors4_def in_bounds_def by auto
qed

definition flood_edge :: "grid \<Rightarrow> cell \<Rightarrow> cell \<Rightarrow> cell \<Rightarrow> bool" where
  "flood_edge g start c n \<longleftrightarrow> n \<in> set (neighbors4 g (fst c) (snd c)) \<and> flood_open g start n"

fun flood_reach :: "grid \<Rightarrow> cell \<Rightarrow> nat \<Rightarrow> cell \<Rightarrow> bool" where
  "flood_reach g start 0 c \<longleftrightarrow> c = start"
| "flood_reach g start (Suc k) c \<longleftrightarrow> (\<exists>p. flood_reach g start k p \<and> flood_edge g start p c)"

definition flood_dist :: "grid \<Rightarrow> cell \<Rightarrow> cell \<Rightarrow> nat \<Rightarrow> bool" where
  "flood_dist g start c k \<longleftrightarrow> flood_reach g start k c \<and> (\<forall>j < k. \<not> flood_reach g start j c)"

lemma flood_dist_le: "flood_dist g start c k \<Longrightarrow> flood_reach g start j c \<Longrightarrow> k \<le> j"
  unfolding flood_dist_def by (meson not_le)

abbreviation cell_of :: "int \<times> int \<times> int \<Rightarrow> cell" where
  "cell_of e \<equiv> (fst e, fst (snd e))"

abbreviation cost_of :: "int \<times> int \<times> int \<Rightarrow> int" where
  "cost_of e \<equiv> snd (snd e)"

definition flood_inv ::
  "grid \<Rightarrow> cell \<Rightarrow> int \<Rightarrow> (int \<times> int \<times> int) list \<Rightarrow> cell set \<Rightarrow> cell set \<Rightarrow> bool" where
  "flood_inv g start ap q seen out \<longleftrightarrow>
     start \<in> seen \<and>
     (\<forall>e \<in> set q. 0 \<le> cost_of e \<and> cost_of e \<le> ap \<and> flood_dist g start (cell_of e) (nat (cost_of e))) \<and>
     seen = out \<union> cell_of ` set q \<and>
     sorted (map cost_of q) \<and> (\<forall>e \<in> set q. cost_of e \<le> cost_of (hd q) + 1) \<and>
     (\<forall>c \<in> out. \<exists>k. flood_dist g start c k \<and> int k \<le> ap \<and>
        (int k < ap \<longrightarrow> (\<forall>n. flood_edge g start c n \<longrightarrow> n \<in> seen))) \<and>
     (\<forall>c k. q \<noteq> [] \<and> flood_reach g start k c \<and> int k \<le> cost_of (hd q) \<longrightarrow> c \<in> seen)"

lemma flood_invD:
  assumes "flood_inv g start ap q seen out"
  shows "start \<in> seen"
    and "\<And>e. e \<in> set q \<Longrightarrow> 0 \<le> cost_of e \<and> cost_of e \<le> ap \<and> flood_dist g start (cell_of e) (nat (cost_of e))"
    and "seen = out \<union> cell_of ` set q"
    and "sorted (map cost_of q)"
    and "\<And>e. e \<in> set q \<Longrightarrow> cost_of e \<le> cost_of (hd q) + 1"
    and "\<And>c. c \<in> out \<Longrightarrow> \<exists>k. flood_dist g start c k \<and> int k \<le> ap \<and>
          (int k < ap \<longrightarrow> (\<forall>n. flood_edge g start c n \<longrightarrow> n \<in> seen))"
    and "\<And>c k. q \<noteq> [] \<Longrightarrow> flood_reach g start k c \<Longrightarrow> int k \<le> cost_of (hd q) \<Longrightarrow> c \<in> seen"
  using assms unfolding flood_inv_def by blast+

lemma flood_invI:
  assumes "start \<in> seen"
    and "\<And>e. e \<in> set q \<Longrightarrow> 0 \<le> cost_of e \<and> cost_of e \<le> ap \<and> flood_dist g start (cell_of e) (nat (cost_of e))"
    and "seen = out \<union> cell_of ` set q"
    and "sorted (map cost_of q)"
    and "\<And>e. e \<in> set q \<Longrightarrow> cost_of e \<le> cost_of (hd q) + 1"
    and "\<And>c. c \<in> out \<Longrightarrow> \<exists>k. flood_dist g start c k \<and> int k \<le> ap \<and>
          (int k < ap \<longrightarrow> (\<forall>n. flood_edge g start c n \<longrightarrow> n \<in> seen))"
    and "\<And>c k. q \<noteq> [] \<Longrightarrow> flood_reach g start k c \<Longrightarrow> int k \<le> cost_of (hd q) \<Longrightarrow> c \<in> seen"
  shows "flood_inv g start ap q seen out"
  using assms unfolding flood_inv_def by blast

lemma flood_inv_init:
  assumes "0 \<le> ap"
  shows "flood_inv g (sx, sy) ap [(sx, sy, 0)] {(sx, sy)} {}"
proof (rule flood_invI)
  fix c k
  assume "flood_reach g (sx, sy) k c" "int k \<le> cost_of (hd [(sx, sy, 0)])"
  then show "c \<in> {(sx, sy)}" by (cases k) auto
qed (use assms in \<open>auto simp: flood_dist_def\<close>)

lemma flood_inv_stop:
  assumes inv: "flood_inv g start ap ((x, y, cost) # q) seen out" and stop: "ap \<le> cost"
  shows "flood_inv g start ap q seen (insert (x, y) out)"
proof -
  note d = flood_invD [OF inv]
  from d(2) [of "(x, y, cost)"] have c: "cost = ap" "0 \<le> cost" "flood_dist g start (x, y) (nat cost)"
    using stop by auto
  have sorted: "sorted (cost # map cost_of q)" using d(4) by simp
  have eq: "cost_of e = cost" if "e \<in> set q" for e
  proof -
    have "cost \<le> cost_of e" using sorted that by auto
    moreover have "cost_of e \<le> ap" using d(2) [of e] that by simp
    ultimately show ?thesis using c(1) by simp
  qed
  show ?thesis
  proof (rule flood_invI)
    show "start \<in> seen" by (rule d(1))
    show "0 \<le> cost_of e \<and> cost_of e \<le> ap \<and> flood_dist g start (cell_of e) (nat (cost_of e))"
      if "e \<in> set q" for e using d(2) [of e] that by simp
    show "seen = insert (x, y) out \<union> cell_of ` set q"
      using d(3) by auto
    show "sorted (map cost_of q)" using sorted by simp
    show "cost_of e \<le> cost_of (hd q) + 1" if "e \<in> set q" for e
    proof -
      have "q \<noteq> []" using that by auto
      then have "hd q \<in> set q" by simp
      then show ?thesis using eq [OF that] eq [of "hd q"] by simp
    qed
    show "\<exists>k. flood_dist g start c k \<and> int k \<le> ap \<and>
          (int k < ap \<longrightarrow> (\<forall>n. flood_edge g start c n \<longrightarrow> n \<in> seen))"
      if "c \<in> insert (x, y) out" for c
    proof (cases "c = (x, y)")
      case True
      then show ?thesis using c by (intro exI [of _ "nat cost"]) simp
    next
      case False
      then show ?thesis using d(6) [of c] that by simp
    qed
    show "c \<in> seen" if "q \<noteq> []" "flood_reach g start k c" "int k \<le> cost_of (hd q)" for c k
    proof -
      have "cost_of (hd q) = cost" using eq [of "hd q"] that(1) by simp
      then show ?thesis using d(7) [of k c] that by simp
    qed
  qed
qed

lemma flood_inv_expand:
  assumes inv: "flood_inv g start ap ((x, y, cost) # q) seen out" and go: "cost < ap"
    and new: "new = flood_new g start (neighbors4 g x y) seen"
  shows "flood_inv g start ap (q @ map (\<lambda>n. (fst n, snd n, cost + 1)) new)
           (seen \<union> set new) (insert (x, y) out)"
proof -
  note d = flood_invD [OF inv]
  let ?q' = "q @ map (\<lambda>n. (fst n, snd n, cost + 1)) new"
  let ?seen' = "seen \<union> set new"
  from d(2) [of "(x, y, cost)"] have c: "0 \<le> cost" "flood_dist g start (x, y) (nat cost)"
    by auto
  have sorted: "sorted (cost # map cost_of q)" using d(4) by simp
  have lo: "cost \<le> cost_of e" if "e \<in> set q" for e using sorted that by auto
  have hi: "cost_of e \<le> cost + 1" if "e \<in> set q" for e using d(5) [of e] that by simp
  have newset: "set new = {n \<in> set (neighbors4 g x y). n \<notin> seen \<and> flood_open g start n}"
    by (simp add: new flood_new_set)
  have low: "c' \<in> seen" if "flood_reach g start k c'" "int k \<le> cost" for c' k
    using d(7) [of k c'] that by simp
  have cost': "cost \<le> cost_of e \<and> cost_of e \<le> cost + 1" if "e \<in> set ?q'" for e
  proof (cases "e \<in> set q")
    case True
    then show ?thesis using lo [of e] hi [of e] by simp
  next
    case False
    then have "cost_of e = cost + 1" using that by auto
    then show ?thesis by simp
  qed
  have edges: "n \<in> ?seen'" if "flood_edge g start (x, y) n" for n
    using that newset by (auto simp: flood_edge_def)
  show ?thesis
  proof (rule flood_invI)
    show "start \<in> ?seen'" using d(1) by simp
    show "0 \<le> cost_of e \<and> cost_of e \<le> ap \<and> flood_dist g start (cell_of e) (nat (cost_of e))"
      if mem: "e \<in> set ?q'" for e
    proof (cases "e \<in> set q")
      case True
      then show ?thesis using d(2) [of e] by simp
    next
      case False
      then obtain n where n: "n \<in> set new" "e = (fst n, snd n, cost + 1)"
        using mem by auto
      have edge: "flood_edge g start (x, y) n" using n(1) newset by (simp add: flood_edge_def)
      have nat: "nat (cost + 1) = Suc (nat cost)" using c(1) by simp
      have r: "flood_reach g start (Suc (nat cost)) n"
        using c(2) edge by (auto simp: flood_dist_def)
      have "\<not> flood_reach g start j n" if "j < Suc (nat cost)" for j
      proof
        assume "flood_reach g start j n"
        then have "n \<in> seen" using low [of j n] that c(1) by simp
        then show False using n(1) newset by simp
      qed
      then have "flood_dist g start n (Suc (nat cost))"
        using r by (simp add: flood_dist_def)
      then show ?thesis using n(2) nat c(1) go by simp
    qed
    show "?seen' = insert (x, y) out \<union> cell_of ` set ?q'"
      using d(3) by (auto simp: image_Un image_image)
    have const: "sorted (map (\<lambda>n. cost + 1) new)"
      by (induction new) auto
    show "sorted (map cost_of ?q')"
      using sorted hi const by (auto simp: sorted_append comp_def)
    show "cost_of e \<le> cost_of (hd ?q') + 1" if "e \<in> set ?q'" for e
    proof -
      have "?q' \<noteq> []" using that by auto
      then have "hd ?q' \<in> set ?q'" by (rule hd_in_set)
      from cost' [OF this] cost' [OF that] show ?thesis by simp
    qed
    show "\<exists>k. flood_dist g start c' k \<and> int k \<le> ap \<and>
          (int k < ap \<longrightarrow> (\<forall>n. flood_edge g start c' n \<longrightarrow> n \<in> ?seen'))"
      if mem: "c' \<in> insert (x, y) out" for c'
    proof (cases "c' = (x, y)")
      case True
      then show ?thesis using c go edges by (intro exI [of _ "nat cost"]) simp
    next
      case False
      then obtain k where "flood_dist g start c' k" "int k \<le> ap"
          "int k < ap \<longrightarrow> (\<forall>n. flood_edge g start c' n \<longrightarrow> n \<in> seen)"
        using d(6) [of c'] mem by auto
      then show ?thesis by (intro exI [of _ k]) simp
    qed
    show "c' \<in> ?seen'"
      if ne: "?q' \<noteq> []" and rk: "flood_reach g start k c'" and kh: "int k \<le> cost_of (hd ?q')" for c' k
    proof (cases "int k \<le> cost")
      case True
      then show ?thesis using low [OF rk] by simp
    next
      case False
      have "hd ?q' \<in> set ?q'" using ne by (rule hd_in_set)
      from cost' [OF this] have hd1: "cost_of (hd ?q') = cost + 1" and k: "int k = cost + 1"
        using False kh by simp_all
      then have kS: "k = Suc (nat cost)" using c(1) by simp
      then obtain p where p: "flood_reach g start (nat cost) p" "flood_edge g start p c'"
        using rk by auto
      have pseen: "p \<in> seen" using low [OF p(1)] c(1) by simp
      have all_hi: "cost_of e = cost + 1" if eq: "e \<in> set q" for e
      proof -
        have "q \<noteq> []" using eq by auto
        then have "hd ?q' = hd q" by simp
        then have "cost_of (hd q) = cost + 1" using hd1 by simp
        moreover have "sorted (map cost_of q)" using sorted by simp
        then have "cost_of (hd q) \<le> cost_of e"
          using eq \<open>q \<noteq> []\<close> by (cases q) auto
        ultimately show ?thesis using hi [OF eq] by simp
      qed
      have notq: "p \<notin> cell_of ` set q"
      proof
        assume "p \<in> cell_of ` set q"
        then obtain e where e: "e \<in> set q" "p = cell_of e" by auto
        have "flood_dist g start p (nat (cost_of e))" using d(2) [of e] e by simp
        from flood_dist_le [OF this p(1)] all_hi [OF e(1)] c(1) show False by simp
      qed
      show ?thesis
      proof (cases "p = (x, y)")
        case True
        then show ?thesis using edges p(2) by simp
      next
        case False
        then have "p \<in> out" using pseen notq d(3) by auto
        then obtain kd where kd: "flood_dist g start p kd"
            "int kd < ap \<longrightarrow> (\<forall>n. flood_edge g start p n \<longrightarrow> n \<in> seen)"
          using d(6) [of p] by auto
        from flood_dist_le [OF kd(1) p(1)] have "int kd < ap" using go c(1) by simp
        then show ?thesis using kd(2) p(2) by blast
      qed
    qed
  qed
qed

lemma flood_inv_final:
  assumes inv: "flood_inv g start ap [] seen out"
  shows "out = {c. \<exists>k. flood_reach g start k c \<and> int k \<le> ap}"
proof -
  note d = flood_invD [OF inv]
  have so: "seen = out" using d(3) by simp
  have "c \<in> out" if "flood_reach g start k c" "int k \<le> ap" for k c
    using that
  proof (induction k arbitrary: c)
    case 0
    then show ?case using d(1) so by simp
  next
    case (Suc k)
    then obtain p where p: "flood_reach g start k p" "flood_edge g start p c" by auto
    have "p \<in> out" using Suc.IH [OF p(1)] Suc.prems(2) by simp
    then obtain kd where kd: "flood_dist g start p kd"
        "int kd < ap \<longrightarrow> (\<forall>n. flood_edge g start p n \<longrightarrow> n \<in> seen)"
      using d(6) [of p] by auto
    from flood_dist_le [OF kd(1) p(1)] have "int kd < ap" using Suc.prems(2) by simp
    then show ?case using kd(2) p(2) so by blast
  qed
  moreover have "\<exists>k. flood_reach g start k c \<and> int k \<le> ap" if "c \<in> out" for c
    using d(6) [OF that] by (auto simp: flood_dist_def)
  ultimately show ?thesis by blast
qed

lemma flood_loop_correct:
  "flood_inv g start ap q seen out \<Longrightarrow>
   flood_loop g start ap q seen out = {c. \<exists>k. flood_reach g start k c \<and> int k \<le> ap}"
proof (induction g start ap q seen out rule: flood_loop.induct)
  case (1 g start ap seen out)
  then show ?case using flood_inv_final by simp
next
  case (2 g start ap x y cost q seen out)
  show ?case
  proof (cases "ap \<le> cost")
    case True
    from "2.IH"(1) [OF refl True flood_inv_stop [OF "2.prems" True]] True
    show ?thesis by simp
  next
    case False
    define new where "new = flood_new g start (neighbors4 g x y) seen"
    have fn: "flood_neighbors g start cost (neighbors4 g x y) (seen, q) =
                (seen \<union> set new, q @ map (\<lambda>n. (fst n, snd n, cost + 1)) new)"
      by (simp add: flood_neighbors_eq new_def)
    have inv': "flood_inv g start ap (q @ map (\<lambda>n. (fst n, snd n, cost + 1)) new)
                  (seen \<union> set new) (insert (x, y) out)"
      using flood_inv_expand [OF "2.prems" _ new_def] False by simp
    from "2.IH"(2) [OF refl False fn [symmetric] inv'] False fn
    show ?thesis by simp
  qed
qed

subsection \<open>Paths on the grid\<close>

text \<open>
  A walk is a list of cells in which consecutive cells are 4-neighbours. A flood path
  from \<open>start\<close> is a walk that begins at \<open>start\<close> and whose other cells are in bounds,
  walkable terrain and unoccupied; a cell equal to \<open>start\<close> is exempt.
\<close>

fun walk4 :: "cell list \<Rightarrow> bool" where
  "walk4 [] \<longleftrightarrow> True"
| "walk4 [a] \<longleftrightarrow> True"
| "walk4 (a # b # rest) \<longleftrightarrow> adjacent4 a b \<and> walk4 (b # rest)"

definition flood_cell_ok :: "grid \<Rightarrow> cell \<Rightarrow> cell \<Rightarrow> bool" where
  "flood_cell_ok g start c \<longleftrightarrow>
     c = start \<or>
     (in_bounds g (fst c) (snd c) \<and> walkable_at g (fst c) (snd c) \<and> c \<notin> dom (occupants g))"

definition flood_path :: "grid \<Rightarrow> cell \<Rightarrow> cell list \<Rightarrow> bool" where
  "flood_path g start p \<longleftrightarrow>
     p \<noteq> [] \<and> hd p = start \<and> walk4 p \<and> list_all (flood_cell_ok g start) (tl p)"

lemma walk4_snoc: "p \<noteq> [] \<Longrightarrow> walk4 (p @ [c]) \<longleftrightarrow> walk4 p \<and> adjacent4 (last p) c"
  by (induction p rule: walk4.induct) auto

lemma flood_path_snoc:
  "p \<noteq> [] \<Longrightarrow> flood_path g start (p @ [c]) \<longleftrightarrow>
     flood_path g start p \<and> adjacent4 (last p) c \<and> flood_cell_ok g start c"
  by (auto simp: flood_path_def walk4_snoc)

lemma flood_reach_path:
  "flood_reach g start k c \<Longrightarrow> \<exists>p. flood_path g start p \<and> last p = c \<and> length p = Suc k"
proof (induction k arbitrary: c)
  case 0
  then show ?case
    by (intro exI [of _ "[start]"]) (simp add: flood_path_def)
next
  case (Suc k)
  then obtain b where b: "flood_reach g start k b" "flood_edge g start b c" by auto
  from Suc.IH [OF b(1)] obtain p where p: "flood_path g start p" "last p = b" "length p = Suc k"
    by blast
  have ne: "p \<noteq> []" using p(3) by auto
  have "adjacent4 b c"
    using b(2) neighbors4_adjacent [of c g "fst b" "snd b"] by (simp add: flood_edge_def)
  moreover have "flood_cell_ok g start c"
    using b(2) by (auto simp: flood_edge_def flood_open_def flood_cell_ok_def)
  ultimately have "flood_path g start (p @ [c])"
    using p ne by (simp add: flood_path_snoc)
  then show ?case using p(3) by (intro exI [of _ "p @ [c]"]) simp
qed

lemma flood_path_reach:
  "flood_path g start p \<Longrightarrow> \<exists>k. flood_reach g start k (last p) \<and> Suc k \<le> length p"
proof (induction p rule: rev_induct)
  case Nil
  then show ?case by (simp add: flood_path_def)
next
  case (snoc c p)
  show ?case
  proof (cases "p = [] \<or> c = start")
    case True
    then have "c = start" using snoc.prems by (auto simp: flood_path_def)
    then have "flood_reach g start 0 (last (p @ [c]))" by simp
    then show ?thesis by (intro exI [of _ 0]) simp
  next
    case False
    then have ne: "p \<noteq> []" and cs: "c \<noteq> start" by simp_all
    from snoc.prems ne have fp: "flood_path g start p" and adj: "adjacent4 (last p) c"
      and ok: "flood_cell_ok g start c"
      by (simp_all add: flood_path_snoc)
    from snoc.IH [OF fp] obtain k where k: "flood_reach g start k (last p)" "Suc k \<le> length p"
      by blast
    have inb: "in_bounds g (fst c) (snd c)" and op: "flood_open g start c"
      using ok cs by (auto simp: flood_cell_ok_def flood_open_def)
    have "c \<in> set (neighbors4 g (fst (last p)) (snd (last p)))"
      using adjacent_neighbors4 [of "fst (last p)" "snd (last p)" c g] adj inb by simp
    then have "flood_edge g start (last p) c"
      using op by (simp add: flood_edge_def)
    then have "\<exists>b. flood_reach g start k b \<and> flood_edge g start b c"
      using k(1) by blast
    then have "flood_reach g start (Suc k) (last (p @ [c]))"
      by (simp del: split_paired_Ex)
    then show ?thesis using k(2) by (intro exI [of _ "Suc k"]) simp
  qed
qed

lemma flood_reach_iff_path:
  "(\<exists>k. flood_reach g start k c \<and> int k \<le> ap) \<longleftrightarrow>
   (\<exists>p. flood_path g start p \<and> last p = c \<and> int (length p) - 1 \<le> ap)"
proof
  assume "\<exists>k. flood_reach g start k c \<and> int k \<le> ap"
  then obtain k where k: "flood_reach g start k c" "int k \<le> ap" by blast
  from flood_reach_path [OF k(1)] obtain p where "flood_path g start p" "last p = c" "length p = Suc k"
    by blast
  then show "\<exists>p. flood_path g start p \<and> last p = c \<and> int (length p) - 1 \<le> ap"
    using k(2) by (intro exI [of _ p]) simp
next
  assume "\<exists>p. flood_path g start p \<and> last p = c \<and> int (length p) - 1 \<le> ap"
  then obtain p where p: "flood_path g start p" "last p = c" "int (length p) - 1 \<le> ap" by blast
  from flood_path_reach [OF p(1)] obtain k where "flood_reach g start k (last p)" "Suc k \<le> length p"
    by blast
  then show "\<exists>k. flood_reach g start k c \<and> int k \<le> ap"
    using p(2,3) by (intro exI [of _ k]) simp
qed

section \<open>Reachability bound\<close>

text \<open>
  Claim C5. On a well-formed grid, for an in-bounds start and a budget \<open>\<ge> 0\<close>,
  \<^verbatim>\<open>reachable_flood(start, budget)\<close> is exactly the set of the cells at the end of a
  4-connected path from \<open>start\<close> of at most \<open>budget\<close> steps whose cells other than
  \<open>start\<close> are in bounds, walkable terrain and unoccupied; \<open>start\<close> is one of them.
\<close>

theorem reachable_flood_exact:
  assumes "wf_grid g" "in_bounds g sx sy" "0 \<le> budget"
  shows "reachable_flood g (sx, sy) budget =
           {c. \<exists>p. flood_path g (sx, sy) p \<and> last p = c \<and> int (length p) - 1 \<le> budget} \<and>
         (sx, sy) \<in> reachable_flood g (sx, sy) budget"
proof -
  have "reachable_flood g (sx, sy) budget = flood_loop g (sx, sy) budget [(sx, sy, 0)] {(sx, sy)} {}"
    using assms(2) by (simp add: reachable_flood_def)
  also have "\<dots> = {c. \<exists>k. flood_reach g (sx, sy) k c \<and> int k \<le> budget}"
    by (rule flood_loop_correct [OF flood_inv_init [OF assms(3)]])
  finally have eq: "reachable_flood g (sx, sy) budget = {c. \<exists>k. flood_reach g (sx, sy) k c \<and> int k \<le> budget}" .
  have "flood_reach g (sx, sy) 0 (sx, sy)" by simp
  then have "(sx, sy) \<in> reachable_flood g (sx, sy) budget"
    unfolding eq using assms(3) by (intro CollectI exI [of _ 0]) simp
  then show ?thesis
    unfolding eq by (simp add: flood_reach_iff_path)
qed

theorem reachable_flood_exact_witness:
  "wf_grid (open_grid 3 3) \<and> in_bounds (open_grid 3 3) 1 1 \<and>
   reachable_flood (open_grid 3 3) (1, 1) 1 = {(1, 1), (0, 1), (2, 1), (1, 0), (1, 2)} \<and>
   {c. \<exists>p. flood_path (open_grid 3 3) (1, 1) p \<and> last p = c \<and> int (length p) - 1 \<le> 1} =
     {(1, 1), (0, 1), (2, 1), (1, 0), (1, 2)}"
proof -
  have b: "in_bounds (open_grid 3 3) 1 1"
    by (simp add: in_bounds_def open_grid_def)
  have v: "reachable_flood (open_grid 3 3) (1, 1) 1 = {(1, 1), (0, 1), (2, 1), (1, 0), (1, 2)}"
    by code_simp
  from reachable_flood_exact [OF wf_open_grid b, of 1] v wf_open_grid [of 3 3] b
  show ?thesis by simp
qed

subsection \<open>A* search\<close>


definition first_min :: "(cell \<Rightarrow> int) \<Rightarrow> cell list \<Rightarrow> cell" where
  "first_min key xs = foldl (\<lambda>best x. if key x < key best then x else best) (hd xs) (tl xs)"

record astar_state =
  open_set :: "cell list"
  came_from :: "cell \<rightharpoonup> cell"
  g_score :: "cell \<rightharpoonup> int"
  f_score :: "cell \<rightharpoonup> int"

text \<open>
  The body of the \<^verbatim>\<open>for\<close> loop over the neighbours of \<^verbatim>\<open>current\<close> (\<open>cur\<close>). \<^verbatim>\<open>g[current]\<close> raises
  \<^verbatim>\<open>KeyError\<close> when the key is missing: \<open>None\<close>.
\<close>

definition astar_relax :: "grid \<Rightarrow> cell \<Rightarrow> cell \<Rightarrow> cell \<Rightarrow> cell \<Rightarrow> astar_state \<Rightarrow> astar_state option" where
  "astar_relax g start goal cur n st =
     (case n of (nx, ny) \<Rightarrow>
      if \<not> in_bounds g nx ny \<or> \<not> walkable_at g nx ny then Some st
      else if (nx, ny) \<in> dom (occupants g) \<and> (nx, ny) \<noteq> start \<and> (nx, ny) \<noteq> goal then Some st
      else
        (case g_score st cur of
           None \<Rightarrow> None
         | Some gc \<Rightarrow>
             let tentative = gc + 1 in
             if tentative < (case g_score st (nx, ny) of None \<Rightarrow> 1000000 | Some v \<Rightarrow> v) then
               Some (st\<lparr>came_from := (came_from st)((nx, ny) \<mapsto> cur),
                        g_score := (g_score st)((nx, ny) \<mapsto> tentative),
                        f_score := (f_score st)((nx, ny) \<mapsto> tentative + \<bar>fst goal - nx\<bar> + \<bar>snd goal - ny\<bar>),
                        open_set := (if (nx, ny) \<notin> set (open_set st) then open_set st @ [(nx, ny)]
                                     else open_set st)\<rparr>)
             else Some st))"

fun astar_neighbors :: "grid \<Rightarrow> cell \<Rightarrow> cell \<Rightarrow> cell \<Rightarrow> cell list \<Rightarrow> astar_state \<Rightarrow> astar_state option" where
  "astar_neighbors g start goal cur [] st = Some st"
| "astar_neighbors g start goal cur (n # ns) st =
     (case astar_relax g start goal cur n st of
        None \<Rightarrow> None
      | Some st' \<Rightarrow> astar_neighbors g start goal cur ns st')"

text \<open>The reconstruction loop \<^verbatim>\<open>while current in came_from\<close>, before the reversal.\<close>

partial_function (option) reconstruct :: "(cell \<rightharpoonup> cell) \<Rightarrow> cell \<Rightarrow> cell list \<Rightarrow> cell list option" where
  "reconstruct cf cur acc =
     (case cf cur of
        None \<Rightarrow> Some acc
      | Some prev \<Rightarrow> reconstruct cf prev (acc @ [prev]))"

declare reconstruct.simps [code]

text \<open>Python's \<^verbatim>\<open>path[:m]\<close>.\<close>

definition py_prefix :: "int \<Rightarrow> 'a list \<Rightarrow> 'a list" where
  "py_prefix m xs = (if m \<ge> 0 then take (nat m) xs else take (nat (int (length xs) + m)) xs)"

partial_function (option) astar_loop ::
  "((cell \<Rightarrow> int) \<Rightarrow> cell list \<Rightarrow> cell) \<Rightarrow> grid \<Rightarrow> cell \<Rightarrow> cell \<Rightarrow> int option \<Rightarrow> astar_state \<Rightarrow> cell list option" where
  "astar_loop scan g start goal max_len st =
     (if open_set st = [] then Some []
      else
        let cur = scan (\<lambda>p. case f_score st p of None \<Rightarrow> 10000000 | Some v \<Rightarrow> v) (open_set st) in
        if cur = goal then
          Option.bind (reconstruct (came_from st) cur [cur])
            (\<lambda>acc. let route = rev acc in
               Some (case max_len of
                       None \<Rightarrow> route
                     | Some m \<Rightarrow> if int (length route) > m then py_prefix m route else route))
        else
          Option.bind
            (astar_neighbors g start goal cur (neighbors4 g (fst cur) (snd cur))
               (st\<lparr>open_set := removeAll cur (open_set st)\<rparr>))
            (\<lambda>st'. astar_loop scan g start goal max_len st'))"

declare astar_loop.simps [code]

definition astar ::
  "((cell \<Rightarrow> int) \<Rightarrow> cell list \<Rightarrow> cell) \<Rightarrow> grid \<Rightarrow> cell \<Rightarrow> cell \<Rightarrow> int option \<Rightarrow> cell list option" where
  "astar scan g start goal max_len =
     (if start = goal then Some [start]
      else
        case start of (sx, sy) \<Rightarrow>
        case goal of (goalx, goaly) \<Rightarrow>
          if \<not> in_bounds g goalx goaly \<or> \<not> walkable_at g goalx goaly then Some []
          else
            astar_loop scan g start goal max_len
              \<lparr>open_set = [start], came_from = Map.empty, g_score = [start \<mapsto> 0],
               f_score = [start \<mapsto> \<bar>goalx - sx\<bar> + \<bar>goaly - sy\<bar>]\<rparr>)"

section \<open>A goal that cannot be entered\<close>

definition wall_corridor :: grid where
  "wall_corridor = (open_grid 5 1)\<lparr>walkable := [[True, True, False, True, True]]\<rparr>"

lemma wf_wall_corridor: "wf_grid wall_corridor"
  by (simp add: wall_corridor_def wf_grid_def open_grid_def)

text \<open>
  Claim C7, as amended. On a well-formed grid, for every start and every goal different
  from it that is out of bounds or not walkable terrain, \<^verbatim>\<open>astar(start, goal)\<close> returns
  the empty path, whatever the scan order and the length cap. When start equals goal the
  result is the single-cell path, also for a cell that cannot be entered.
\<close>

theorem astar_blocked_goal:
  assumes "wf_grid g" "start \<noteq> goal"
    and "\<not> in_bounds g (fst goal) (snd goal) \<or> \<not> walkable_at g (fst goal) (snd goal)"
  shows "astar scan g start goal max_len = Some [] \<and> astar scan g goal goal max_len = Some [goal]"
  using assms by (auto simp: astar_def split: prod.splits)

theorem astar_blocked_goal_witness:
  "wf_grid wall_corridor \<and> \<not> walkable_at wall_corridor 2 0 \<and> \<not> in_bounds wall_corridor 7 0 \<and>
   astar first_min wall_corridor (0, 0) (2, 0) None = Some [] \<and>
   astar first_min wall_corridor (0, 0) (7, 0) None = Some []"
proof -
  have nw: "\<not> walkable_at wall_corridor 2 0"
    by (simp add: wall_corridor_def walkable_at_def numeral_2_eq_2)
  have nb: "\<not> in_bounds wall_corridor 7 0"
    by (simp add: wall_corridor_def in_bounds_def open_grid_def)
  have a: "astar first_min wall_corridor (0, 0) (2, 0) None = Some []"
    using astar_blocked_goal [OF wf_wall_corridor, of "(0, 0)" "(2, 0)" first_min None] nw by simp
  have b: "astar first_min wall_corridor (0, 0) (7, 0) None = Some []"
    using astar_blocked_goal [OF wf_wall_corridor, of "(0, 0)" "(7, 0)" first_min None] nb by simp
  from wf_wall_corridor nw nb a b show ?thesis by blast
qed

text \<open>
  The claim as stated includes the case where start equals goal; there the test on the
  goal is never reached.
\<close>

theorem astar_blocked_goal_counterexample:
  "\<not> in_bounds wall_corridor 7 0 \<and> \<not> walkable_at wall_corridor 2 0 \<and>
   astar first_min wall_corridor (7, 0) (7, 0) None = Some [(7, 0)] \<and>
   astar first_min wall_corridor (2, 0) (2, 0) None = Some [(2, 0)]"
  by (simp add: astar_def wall_corridor_def in_bounds_def open_grid_def walkable_at_def numeral_2_eq_2)

section \<open>Shortest paths\<close>

subsection \<open>The graph A* searches\<close>

definition heur :: "cell \<Rightarrow> cell \<Rightarrow> int" where
  "heur goal c = \<bar>fst goal - fst c\<bar> + \<bar>snd goal - snd c\<bar>"

definition astar_open :: "grid \<Rightarrow> cell \<Rightarrow> cell \<Rightarrow> cell \<Rightarrow> bool" where
  "astar_open g start goal n \<longleftrightarrow>
     in_bounds g (fst n) (snd n) \<and> walkable_at g (fst n) (snd n) \<and>
     \<not> (n \<in> dom (occupants g) \<and> n \<noteq> start \<and> n \<noteq> goal)"

definition astar_edge :: "grid \<Rightarrow> cell \<Rightarrow> cell \<Rightarrow> cell \<Rightarrow> cell \<Rightarrow> bool" where
  "astar_edge g start goal c n \<longleftrightarrow> n \<in> set (neighbors4 g (fst c) (snd c)) \<and> astar_open g start goal n"


definition gval :: "astar_state \<Rightarrow> cell \<Rightarrow> int" where
  "gval st c = (case g_score st c of None \<Rightarrow> 1000000 | Some v \<Rightarrow> v)"

lemma heur_goal [simp]: "heur goal goal = 0"
  by (simp add: heur_def)







subsection \<open>Invariants of the search\<close>

definition astar_inv :: "grid \<Rightarrow> cell \<Rightarrow> cell \<Rightarrow> astar_state \<Rightarrow> bool" where
  "astar_inv g start goal st \<longleftrightarrow>
     distinct (open_set st) \<and>
     set (open_set st) \<subseteq> dom (g_score st) \<and>
     g_score st start = Some 0 \<and>
     came_from st start = None \<and>
     (\<forall>c v. g_score st c = Some v \<longrightarrow>
        0 \<le> v \<and> v < 1000000 \<and> f_score st c = Some (v + heur goal c) \<and>
        (c = start \<or> in_bounds g (fst c) (snd c))) \<and>
     (\<forall>c v. g_score st c = Some v \<and> c \<noteq> start \<longrightarrow>
        (\<exists>p pv. came_from st c = Some p \<and> g_score st p = Some pv \<and> pv + 1 \<le> v \<and>
                astar_edge g start goal p c)) \<and>
     (goal \<in> dom (g_score st) \<longrightarrow> goal \<in> set (open_set st))"

lemma astar_invD:
  assumes "astar_inv g start goal st"
  shows "distinct (open_set st)"
    and "set (open_set st) \<subseteq> dom (g_score st)"
    and "g_score st start = Some 0"
    and "came_from st start = None"
    and "\<And>c v. g_score st c = Some v \<Longrightarrow>
           0 \<le> v \<and> v < 1000000 \<and> f_score st c = Some (v + heur goal c) \<and>
           (c = start \<or> in_bounds g (fst c) (snd c))"
    and "\<And>c v. g_score st c = Some v \<Longrightarrow> c \<noteq> start \<Longrightarrow>
           \<exists>p pv. came_from st c = Some p \<and> g_score st p = Some pv \<and> pv + 1 \<le> v \<and>
                  astar_edge g start goal p c"
    and "goal \<in> dom (g_score st) \<Longrightarrow> goal \<in> set (open_set st)"
  using assms unfolding astar_inv_def by blast+





subsection \<open>Relaxing the neighbours\<close>








lemma gval_nonneg: "astar_inv g start goal st \<Longrightarrow> 0 \<le> gval st c"
  using astar_invD(5) [of g start goal st c] by (auto simp: gval_def split: option.splits)



subsection \<open>Paths and the reconstruction\<close>







subsection \<open>The search loop\<close>








subsection \<open>Scenarios\<close>











section \<open>Shortest path\<close>




end
